theory Spec2Isabelle
  imports Main "HOL-Library.Word"
begin

section \<open>Data model\<close>

text \<open>
  The repository holds two variants of an event management system (EMS):
  \<^item> \<^verbatim>\<open>Proj2/server/operations.c\<close>: one mutex per event (the coarse variant);
    its definitions carry the suffix \<open>_p2\<close>;
  \<^item> the operations file of \<^verbatim>\<open>Proj1/Ex2\<close>: one mutex per seat (the fine-grained
    variant); its definitions carry the suffix \<open>_p1\<close>.

  \<^verbatim>\<open>unsigned int\<close> is a 32-bit word and \<^verbatim>\<open>size_t\<close> a 64-bit word (LP64), so
  \<open>+\<close>, \<open>-\<close> and \<open>*\<close> wrap around as they do in C.
\<close>

type_synonym u32 = "32 word"
type_synonym size_t = "64 word"

text \<open>
  \<^verbatim>\<open>struct Event\<close>. In Proj2 \<open>data\<close> is the \<^verbatim>\<open>unsigned int*\<close> array; in Proj1 it is
  the \<^verbatim>\<open>place\<close> field of every cell of the \<^verbatim>\<open>Data\<close> array. The mutexes carry no value
  and are left out: the model is sequential.
\<close>

record Event =
  id_ev :: u32
  rows :: size_t
  cols :: size_t
  reservations :: u32
  data :: "u32 list"

text \<open>A request is the pair of arrays \<^verbatim>\<open>xs\<close>, \<^verbatim>\<open>ys\<close> read up to \<^verbatim>\<open>num_seats\<close>:
  the list of the pairs \<^verbatim>\<open>(xs[i], ys[i])\<close>.\<close>

type_synonym seat = "size_t \<times> size_t"

text \<open>
  Every operation returns 0 or 1 and says why on \<^verbatim>\<open>stderr\<close>. A result is the
  returned \<^verbatim>\<open>int\<close> together with the messages printed, named after the error they
  report:
  \<^item> \<open>NotInitialized\<close>: "EMS state must be initialized";
  \<^item> \<open>AlreadyInitialized\<close>: "EMS state has already been initialized";
  \<^item> \<open>LockFailure\<close>: "Error locking list rwl", "Error locking mutex",
    "Error initializing mutex";
  \<^item> \<open>DuplicateEvent\<close>: "Event already exists";
  \<^item> \<open>AllocationFailure\<close>: "Error allocating memory for event (data)",
    "Error appending event to list";
  \<^item> \<open>EventNotFound\<close>: "Event not found";
  \<^item> \<open>InvalidSeat\<close>: "Seat out of bounds" (Proj2), "Invalid seat" (Proj1);
  \<^item> \<open>SeatAlreadyReserved\<close>: "Seat already reserved";
  \<^item> \<open>NoEvents\<close>: "No events";
  \<^item> \<open>MalformedCommand\<close>: "Invalid RESERVE command. See HELP for usage";
  \<^item> \<open>CommandFailed\<close>: "Failed to reserve seats".
\<close>

datatype error =
    NotInitialized | AlreadyInitialized | LockFailure | DuplicateEvent
  | AllocationFailure | EventNotFound | InvalidSeat | SeatAlreadyReserved
  | NoEvents | MalformedCommand | CommandFailed

type_synonym result = "int \<times> error list"

text \<open>
  What the calls into the C library and into \<^verbatim>\<open>eventlist.c\<close> answer is an input of
  the model: each flag says that the call succeeds. \<open>sizeof_Data\<close> is
  \<^verbatim>\<open>sizeof(struct Data)\<close> of Proj1, a cell with its \<^verbatim>\<open>place\<close> and its \<^verbatim>\<open>mutex\<close>; the
  declaration is in \<^verbatim>\<open>eventlist.h\<close>, which is not among the sources. With a 4-byte
  \<^verbatim>\<open>unsigned int\<close> and the 40-byte \<^verbatim>\<open>pthread_mutex_t\<close> of Linux on x86-64, aligned to 8,
  it is 48.
\<close>

record sys =
  rwlock_ok :: bool
  mutex_ok :: bool
  mutex_init_ok :: bool
  list_alloc_ok :: bool
  event_alloc_ok :: bool
  data_alloc_ok :: bool
  append_ok :: bool
  sizeof_Data :: size_t

definition ok_sys :: sys where
  "ok_sys = \<lparr>rwlock_ok = True, mutex_ok = True, mutex_init_ok = True, list_alloc_ok = True,
     event_alloc_ok = True, data_alloc_ok = True, append_ok = True, sizeof_Data = 48\<rparr>"

text \<open>
  The global \<^verbatim>\<open>event_list\<close> pointer. Proj2 frees the list in \<^verbatim>\<open>ems_terminate\<close> and
  leaves the pointer as it is: \<open>Dangling\<close>. A function that cannot return a defined
  result (it reads freed memory, indexes an array out of range, overflows a signed
  counter or never leaves a loop) returns \<open>None\<close>.
\<close>

datatype 'a ptr = NULL | Live 'a | Dangling

record EventList =
  events :: "Event list"
  num_events :: size_t

section \<open>The event list\<close>

text \<open>
  Modelled from the spec: \<^verbatim>\<open>eventlist.c\<close> (\<^verbatim>\<open>create_list\<close>, \<^verbatim>\<open>append_to_list\<close>,
  \<^verbatim>\<open>get_event\<close>, \<^verbatim>\<open>free_list\<close>) is not among the sources. The registry is an
  "ordered sequence of Event (insertion order = creation order)", \<open>initialize\<close>
  "creates an empty registry", \<open>create_event\<close> "appends a new Event" and
  \<open>find_event\<close> is a "lookup" by id that "returns not-found without error". The
  nodes from \<^verbatim>\<open>head\<close> to \<^verbatim>\<open>tail\<close> are a list, and the pointer \<^verbatim>\<open>get_event\<close> returns is
  the position of the first event with the id.
\<close>

definition create_list :: "Event list" where
  "create_list = []"

definition append_to_list :: "Event list \<Rightarrow> Event \<Rightarrow> Event list" where
  "append_to_list list event = list @ [event]"

fun get_event :: "Event list \<Rightarrow> u32 \<Rightarrow> nat option" where
  "get_event [] event_id = None"
| "get_event (e # es) event_id =
     (if id_ev e = event_id then Some 0 else map_option Suc (get_event es event_id))"

section \<open>Seats\<close>

definition seat_index :: "Event \<Rightarrow> size_t \<Rightarrow> size_t \<Rightarrow> size_t" where
  "seat_index event row col = (row - 1) * cols event + col - 1"

text \<open>The test both variants make on a seat: \<^verbatim>\<open>row <= 0 || row > rows || col <= 0 || col > cols\<close>.\<close>

definition out_of_bounds :: "Event \<Rightarrow> seat \<Rightarrow> bool" where
  "out_of_bounds event s \<longleftrightarrow>
     fst s \<le> 0 \<or> fst s > rows event \<or> snd s \<le> 0 \<or> snd s > cols event"

text \<open>
  \<^verbatim>\<open>for (i = 0; i < n; i++) data[seat_index(event, xs[i], ys[i])] = v\<close>: the last loop of
  Proj2's \<^verbatim>\<open>ems_reserve\<close> (with the reservation id) and the roll-back loop of Proj1's
  (with 0). A store outside the array has no defined result.
\<close>

fun write_seats :: "Event \<Rightarrow> u32 \<Rightarrow> seat list \<Rightarrow> u32 list \<Rightarrow> u32 list option" where
  "write_seats e v [] d = Some d"
| "write_seats e v ((x, y) # ss) d =
     (if unat (seat_index e x y) < length d
      then write_seats e v ss (d[unat (seat_index e x y) := v])
      else None)"

section \<open>Proj2: the coarse variant\<close>

definition ems_init_p2 :: "sys \<Rightarrow> EventList ptr \<Rightarrow> result \<times> EventList ptr" where
  "ems_init_p2 sys event_list =
     (if event_list \<noteq> NULL then ((1, [AlreadyInitialized]), event_list)
      else if list_alloc_ok sys
      then ((0, []), Live \<lparr>events = create_list, num_events = 0\<rparr>)
      else ((1, []), NULL))"

text \<open>\<^verbatim>\<open>free_list(event_list)\<close> is not followed by \<^verbatim>\<open>event_list = NULL\<close>.\<close>

definition ems_terminate_p2 :: "sys \<Rightarrow> EventList ptr \<Rightarrow> (result \<times> EventList ptr) option" where
  "ems_terminate_p2 sys event_list =
     (case event_list of
        NULL \<Rightarrow> Some ((1, [NotInitialized]), event_list)
      | Dangling \<Rightarrow> None
      | Live l \<Rightarrow>
          if \<not> rwlock_ok sys then Some ((1, [LockFailure]), event_list)
          else Some ((0, []), Dangling))"

definition ems_create_p2 ::
  "sys \<Rightarrow> EventList ptr \<Rightarrow> u32 \<Rightarrow> size_t \<Rightarrow> size_t \<Rightarrow> (result \<times> EventList ptr) option" where
  "ems_create_p2 sys event_list event_id num_rows num_cols =
     (case event_list of
        NULL \<Rightarrow> Some ((1, [NotInitialized]), event_list)
      | Dangling \<Rightarrow> None
      | Live l \<Rightarrow>
          if \<not> rwlock_ok sys then Some ((1, [LockFailure]), event_list)
          else if get_event (events l) event_id \<noteq> None
          then Some ((1, [DuplicateEvent]), event_list)
          else if \<not> event_alloc_ok sys then Some ((1, [AllocationFailure]), event_list)
          else if \<not> mutex_init_ok sys then Some ((1, []), event_list)
          else if \<not> data_alloc_ok sys then Some ((1, [AllocationFailure]), event_list)
          else if \<not> append_ok sys then Some ((1, [AllocationFailure]), event_list)
          else Some ((0, []),
            Live \<lparr>events = append_to_list (events l)
                    \<lparr>id_ev = event_id, rows = num_rows, cols = num_cols, reservations = 0,
                     data = replicate (unat (num_rows * num_cols)) 0\<rparr>,
                  num_events = num_events l + 1\<rparr>))"

text \<open>The first loop of \<^verbatim>\<open>ems_reserve\<close>: \<open>True\<close> when it finds a seat out of bounds.\<close>

fun bounds_loop :: "Event \<Rightarrow> seat list \<Rightarrow> bool" where
  "bounds_loop e [] = False"
| "bounds_loop e (s # ss) = (if out_of_bounds e s then True else bounds_loop e ss)"

text \<open>
  The inner loop of the scan, for the cell \<open>i\<close>: \<^verbatim>\<open>continue\<close> while the request's seat is
  another cell, then report whether the cell is taken (\<open>Some True\<close>) or \<^verbatim>\<open>break\<close>.
\<close>

fun scan_requests :: "Event \<Rightarrow> nat \<Rightarrow> seat list \<Rightarrow> bool option" where
  "scan_requests e i [] = Some False"
| "scan_requests e i ((x, y) # ss) =
     (if unat (seat_index e x y) \<noteq> i then scan_requests e i ss
      else if \<not> i < length (data e) then None
      else if data e ! i \<noteq> 0 then Some True
      else Some False)"

text \<open>The outer loop, over the cells \<open>0 \<le> i < rows * cols\<close>.\<close>

fun scan_grid :: "Event \<Rightarrow> seat list \<Rightarrow> nat list \<Rightarrow> bool option" where
  "scan_grid e seats [] = Some False"
| "scan_grid e seats (i # rest) =
     (case scan_requests e i seats of
        None \<Rightarrow> None
      | Some True \<Rightarrow> Some True
      | Some False \<Rightarrow> scan_grid e seats rest)"

text \<open>\<^verbatim>\<open>ems_reserve\<close> from the first loop on, with the event's mutex held.\<close>

definition reserve_event_p2 :: "Event \<Rightarrow> seat list \<Rightarrow> (result \<times> Event) option" where
  "reserve_event_p2 event seats =
     (if bounds_loop event seats then Some ((1, [InvalidSeat]), event)
      else case scan_grid event seats [0..<unat (rows event * cols event)] of
        None \<Rightarrow> None
      | Some True \<Rightarrow> Some ((1, [SeatAlreadyReserved]), event)
      | Some False \<Rightarrow>
          (let reservation_id = reservations event + 1;
               event1 = event\<lparr>reservations := reservation_id\<rparr>
           in case write_seats event1 reservation_id seats (data event1) of
                None \<Rightarrow> None
              | Some d \<Rightarrow> Some ((0, []), event1\<lparr>data := d\<rparr>)))"

definition ems_reserve_p2 ::
  "sys \<Rightarrow> EventList ptr \<Rightarrow> u32 \<Rightarrow> seat list \<Rightarrow> (result \<times> EventList ptr) option" where
  "ems_reserve_p2 sys event_list event_id seats =
     (case event_list of
        NULL \<Rightarrow> Some ((1, [NotInitialized]), event_list)
      | Dangling \<Rightarrow> None
      | Live l \<Rightarrow>
          if \<not> rwlock_ok sys then Some ((1, [LockFailure]), event_list)
          else case get_event (events l) event_id of
            None \<Rightarrow> Some ((1, [EventNotFound]), event_list)
          | Some k \<Rightarrow>
              if \<not> mutex_ok sys then Some ((1, [LockFailure]), event_list)
              else case reserve_event_p2 (events l ! k) seats of
                None \<Rightarrow> None
              | Some (r, event') \<Rightarrow> Some (r, Live (l\<lparr>events := (events l)[k := event']\<rparr>)))"

text \<open>
  What \<^verbatim>\<open>ems_show\<close> and \<^verbatim>\<open>ems_list_events\<close> write to the response descriptor, one
  field for each \<^verbatim>\<open>check_write\<close>. The writes are taken to succeed.
\<close>

datatype field = FInt int | FSize size_t | FArray "u32 list"

text \<open>
  The loops of \<^verbatim>\<open>ems_show\<close> over \<open>1 \<le> i \<le> rows\<close> and \<open>1 \<le> j \<le> cols\<close>, with the
  \<^verbatim>\<open>int count\<close> and the array \<^verbatim>\<open>response_seats\<close> as state. \<^verbatim>\<open>count++\<close> beyond
  \<open>2\<^sup>3\<^sup>1 - 1\<close> is a signed overflow.
\<close>

fun show_cols_p2 :: "Event \<Rightarrow> size_t \<Rightarrow> nat list \<Rightarrow> nat \<times> u32 list \<Rightarrow> (nat \<times> u32 list) option" where
  "show_cols_p2 e i [] s = Some s"
| "show_cols_p2 e i (j # js) (count, response_seats) =
     (if \<not> unat (seat_index e i (of_nat j)) < length (data e) then None
      else if \<not> count < length response_seats then None
      else if \<not> Suc count < 2 ^ 31 then None
      else show_cols_p2 e i js
        (Suc count, response_seats[count := data e ! unat (seat_index e i (of_nat j))]))"

fun show_rows_p2 :: "Event \<Rightarrow> nat list \<Rightarrow> nat \<times> u32 list \<Rightarrow> (nat \<times> u32 list) option" where
  "show_rows_p2 e [] s = Some s"
| "show_rows_p2 e (i # rest) s =
     (case show_cols_p2 e (of_nat i) [1..<Suc (unat (cols e))] s of
        None \<Rightarrow> None
      | Some s' \<Rightarrow> show_rows_p2 e rest s')"

text \<open>
  \<^verbatim>\<open>response_seats\<close> is a variable-length array of \<open>rows * cols\<close> cells, which C
  leaves undefined for the length 0. With \<open>rows\<close> or \<open>cols\<close> at the largest
  \<^verbatim>\<open>size_t\<close> the test \<^verbatim>\<open>i <= event->rows\<close> (\<^verbatim>\<open>j <= event->cols\<close>) never fails.
\<close>

definition ems_show_p2 :: "sys \<Rightarrow> EventList ptr \<Rightarrow> u32 \<Rightarrow> (error list \<times> field list) option" where
  "ems_show_p2 sys event_list event_id =
     (case event_list of
        NULL \<Rightarrow> Some ([NotInitialized], [FInt 1])
      | Dangling \<Rightarrow> None
      | Live l \<Rightarrow>
          if \<not> rwlock_ok sys then Some ([LockFailure], [FInt 1])
          else case get_event (events l) event_id of
            None \<Rightarrow> Some ([EventNotFound], [FInt 1])
          | Some k \<Rightarrow>
              if \<not> mutex_ok sys then Some ([LockFailure], [FInt 1])
              else
                (let event = events l ! k;
                     num_seats = rows event * cols event
                 in if num_seats = 0 \<or> rows event = - 1 \<or> cols event = - 1 then None
                    else case show_rows_p2 event [1..<Suc (unat (rows event))]
                                (0, replicate (unat num_seats) 0) of
                      None \<Rightarrow> None
                    | Some (count, response_seats) \<Rightarrow>
                        Some ([], [FInt 0, FSize (rows event), FSize (cols event),
                                   FArray response_seats])))"

text \<open>
  The \<^verbatim>\<open>while (1)\<close> of \<^verbatim>\<open>ems_list_events\<close> over the nodes from \<^verbatim>\<open>current\<close> to \<^verbatim>\<open>tail\<close>.
\<close>

fun list_loop_p2 :: "Event list \<Rightarrow> nat \<Rightarrow> u32 list \<Rightarrow> u32 list option" where
  "list_loop_p2 [] count events_ids = None"
| "list_loop_p2 (e # es) count events_ids =
     (if \<not> count < length events_ids then None
      else if es = [] then Some (events_ids[count := id_ev e])
      else if \<not> Suc count < 2 ^ 31 then None
      else list_loop_p2 es (Suc count) (events_ids[count := id_ev e]))"

definition ems_list_events_p2 :: "sys \<Rightarrow> EventList ptr \<Rightarrow> (error list \<times> field list) option" where
  "ems_list_events_p2 sys event_list =
     (case event_list of
        NULL \<Rightarrow> Some ([NotInitialized], [FInt 1])
      | Dangling \<Rightarrow> None
      | Live l \<Rightarrow>
          if \<not> rwlock_ok sys then Some ([LockFailure], [FInt 1])
          else if events l = [] then Some ([], [FInt 1])
          else if num_events l = 0 then None
          else case list_loop_p2 (events l) 0 (replicate (unat (num_events l)) 0) of
            None \<Rightarrow> None
          | Some events_ids \<Rightarrow> Some ([], [FInt 0, FSize (num_events l), FArray events_ids]))"

section \<open>Proj1: the fine-grained variant\<close>

text \<open>
  \<^verbatim>\<open>try_lock_rwmutex\<close>, \<^verbatim>\<open>try_lock_mutex\<close> and their unlock counterparts are not among
  the sources; they are taken to return. The state is the \<^verbatim>\<open>event_list\<close> pointer, which
  \<^verbatim>\<open>ems_terminate\<close> resets to \<^verbatim>\<open>NULL\<close>.
\<close>

definition ems_init_p1 :: "sys \<Rightarrow> Event list option \<Rightarrow> result \<times> Event list option" where
  "ems_init_p1 sys event_list =
     (if event_list \<noteq> None then ((1, [AlreadyInitialized]), event_list)
      else if list_alloc_ok sys then ((0, []), Some create_list)
      else ((1, []), None))"

definition ems_terminate_p1 :: "Event list option \<Rightarrow> result \<times> Event list option" where
  "ems_terminate_p1 event_list =
     (if event_list = None then ((1, [NotInitialized]), event_list)
      else ((0, []), None))"

text \<open>
  The loop of \<^verbatim>\<open>ems_create\<close> over the cells \<open>0 \<le> i < num_rows * num_cols\<close>, which sets
  \<^verbatim>\<open>Data[i].place = 0\<close> and initialises the mutex of the cell. The block that \<^verbatim>\<open>malloc\<close>
  returned has room for \<open>capacity\<close> cells; a store beyond it has no defined result.
  The loop answers \<open>Some False\<close> when \<^verbatim>\<open>pthread_mutex_init\<close> fails.
\<close>

fun init_loop_p1 :: "sys \<Rightarrow> nat \<Rightarrow> nat list \<Rightarrow> bool option" where
  "init_loop_p1 sys capacity [] = Some True"
| "init_loop_p1 sys capacity (i # rest) =
     (if \<not> i < capacity then None
      else if \<not> mutex_init_ok sys then Some False
      else init_loop_p1 sys capacity rest)"

text \<open>
  \<^verbatim>\<open>malloc(sizeof(struct Data) * num_rows * num_cols)\<close> computes the number of bytes as a
  \<^verbatim>\<open>size_t\<close>, which wraps around; the block has room for as many cells as fit into
  that number of bytes. The grid of the new event is the cells that the loop has set.
\<close>

definition ems_create_p1 ::
  "sys \<Rightarrow> Event list option \<Rightarrow> u32 \<Rightarrow> size_t \<Rightarrow> size_t \<Rightarrow>
     (result \<times> Event list option) option" where
  "ems_create_p1 sys event_list event_id num_rows num_cols =
     (case event_list of
        None \<Rightarrow> Some ((1, [NotInitialized]), event_list)
      | Some l \<Rightarrow>
          if get_event l event_id \<noteq> None then Some ((1, [DuplicateEvent]), event_list)
          else if \<not> event_alloc_ok sys then Some ((1, [AllocationFailure]), event_list)
          else if \<not> data_alloc_ok sys then Some ((1, [AllocationFailure]), event_list)
          else case init_loop_p1 sys
                 (unat (sizeof_Data sys * num_rows * num_cols) div unat (sizeof_Data sys))
                 [0..<unat (num_rows * num_cols)] of
            None \<Rightarrow> None
          | Some False \<Rightarrow> Some ((1, [LockFailure]), event_list)
          | Some True \<Rightarrow>
              if \<not> append_ok sys then Some ((1, [AllocationFailure]), event_list)
              else Some ((0, []),
                Some (append_to_list l
                        \<lparr>id_ev = event_id, rows = num_rows, cols = num_cols, reservations = 0,
                         data = replicate (unat (num_rows * num_cols)) 0\<rparr>)))"

text \<open>
  The claiming loop of \<^verbatim>\<open>ems_reserve\<close>. It returns the value of \<open>i\<close> at the exit, the
  message printed at a \<^verbatim>\<open>break\<close>, and the cells.
\<close>

fun claim_loop :: "Event \<Rightarrow> u32 \<Rightarrow> seat list \<Rightarrow> u32 list \<Rightarrow> (nat \<times> error list \<times> u32 list) option" where
  "claim_loop e reservation_id [] d = Some (0, [], d)"
| "claim_loop e reservation_id ((row, col) # ss) d =
     (if out_of_bounds e (row, col) then Some (0, [InvalidSeat], d)
      else if \<not> unat (seat_index e row col) < length d then None
      else if d ! unat (seat_index e row col) \<noteq> 0 then Some (0, [SeatAlreadyReserved], d)
      else case claim_loop e reservation_id ss (d[unat (seat_index e row col) := reservation_id]) of
        None \<Rightarrow> None
      | Some (i, msgs, d') \<Rightarrow> Some (Suc i, msgs, d'))"

text \<open>\<^verbatim>\<open>ems_reserve\<close> from \<^verbatim>\<open>++event->reservations\<close> on.\<close>

definition reserve_event_p1 :: "Event \<Rightarrow> seat list \<Rightarrow> (result \<times> Event) option" where
  "reserve_event_p1 event seats =
     (let reservation_id = reservations event + 1;
          event1 = event\<lparr>reservations := reservation_id\<rparr>
      in case claim_loop event1 reservation_id seats (data event1) of
        None \<Rightarrow> None
      | Some (i, msgs, d) \<Rightarrow>
          if i < length seats then
            (case write_seats event1 0 (take i seats) d of
               None \<Rightarrow> None
             | Some d' \<Rightarrow>
                 Some ((1, msgs), event1\<lparr>reservations := reservations event1 - 1, data := d'\<rparr>))
          else Some ((0, msgs), event1\<lparr>data := d\<rparr>))"

definition ems_reserve_p1 ::
  "Event list option \<Rightarrow> u32 \<Rightarrow> seat list \<Rightarrow> (result \<times> Event list option) option" where
  "ems_reserve_p1 event_list event_id seats =
     (case event_list of
        None \<Rightarrow> Some ((1, [NotInitialized]), event_list)
      | Some l \<Rightarrow>
          (case get_event l event_id of
             None \<Rightarrow> Some ((1, [EventNotFound]), event_list)
           | Some k \<Rightarrow>
               (case reserve_event_p1 (l ! k) seats of
                  None \<Rightarrow> None
                | Some (r, event') \<Rightarrow> Some (r, Some (l[k := event'])))))"

text \<open>
  The \<^verbatim>\<open>CMD_RESERVE\<close> case of \<^verbatim>\<open>ems_process_thread\<close>, given what \<^verbatim>\<open>parse_reserve\<close>
  read. After the message for zero coordinates the \<^verbatim>\<open>continue\<close> is commented out, so
  \<^verbatim>\<open>ems_reserve\<close> is called all the same. It returns the messages and the new state.
\<close>

definition cmd_reserve_p1 ::
  "Event list option \<Rightarrow> u32 \<Rightarrow> seat list \<Rightarrow> (error list \<times> Event list option) option" where
  "cmd_reserve_p1 event_list event_id seats =
     (case ems_reserve_p1 event_list event_id seats of
        None \<Rightarrow> None
      | Some ((rc, msgs), event_list') \<Rightarrow>
          Some ((if length seats = 0 then [MalformedCommand] else []) @ msgs @
                (if rc \<noteq> 0 then [CommandFailed] else []), event_list'))"

text \<open>\<^verbatim>\<open>sprintf\<close> with \<^verbatim>\<open>%u\<close>: the decimal digits of a number.\<close>

definition digit :: "nat \<Rightarrow> char" where
  "digit n = ''0123456789'' ! n"

fun dec :: "nat \<Rightarrow> string" where
  "dec n = (if n < 10 then [digit n] else dec (n div 10) @ [digit (n mod 10)])"

declare dec.simps [simp del]

definition newline :: char where
  "newline = CHR 0x0A"

text \<open>
  The loops of \<^verbatim>\<open>ems_show\<close>, with the text written to \<^verbatim>\<open>fd_output\<close> as state. The
  buffer \<^verbatim>\<open>seat_str\<close> has 2 bytes, so \<^verbatim>\<open>sprintf\<close> stays inside it for one digit and the
  terminating zero only. The writes and \<^verbatim>\<open>malloc\<close> are taken to succeed.
\<close>

fun show_cols_p1 :: "Event \<Rightarrow> size_t \<Rightarrow> nat list \<Rightarrow> string \<Rightarrow> string option" where
  "show_cols_p1 e i [] out = Some out"
| "show_cols_p1 e i (j # js) out =
     (if \<not> unat (seat_index e i (of_nat j)) < length (data e) then None
      else if \<not> length (dec (unat (data e ! unat (seat_index e i (of_nat j))))) + 1 \<le> 2
      then None
      else show_cols_p1 e i js
        (out @ dec (unat (data e ! unat (seat_index e i (of_nat j)))) @
           (if (of_nat j :: size_t) < cols e then '' '' else [])))"

fun show_rows_p1 :: "Event \<Rightarrow> nat list \<Rightarrow> string \<Rightarrow> string option" where
  "show_rows_p1 e [] out = Some out"
| "show_rows_p1 e (i # rest) out =
     (case show_cols_p1 e (of_nat i) [1..<Suc (unat (cols e))] out of
        None \<Rightarrow> None
      | Some out' \<Rightarrow> show_rows_p1 e rest (out' @ [newline]))"

definition ems_show_p1 :: "Event list option \<Rightarrow> u32 \<Rightarrow> (result \<times> string) option" where
  "ems_show_p1 event_list event_id =
     (case event_list of
        None \<Rightarrow> Some ((1, [NotInitialized]), [])
      | Some l \<Rightarrow>
          (case get_event l event_id of
             None \<Rightarrow> Some ((1, [EventNotFound]), [])
           | Some k \<Rightarrow>
               (let event = l ! k
                in if rows event = - 1 \<or> (cols event = - 1 \<and> rows event \<noteq> 0) then None
                   else case show_rows_p1 event [1..<Suc (unat (rows event))] [] of
                     None \<Rightarrow> None
                   | Some out \<Rightarrow> Some ((0, []), out))))"

text \<open>
  The loop of \<^verbatim>\<open>ems_list_events\<close>. The buffer \<^verbatim>\<open>id\<close> has 10 bytes for the digits, the
  newline and the terminating zero.
\<close>

fun list_loop_p1 :: "Event list \<Rightarrow> string \<Rightarrow> string option" where
  "list_loop_p1 [] out = Some out"
| "list_loop_p1 (e # es) out =
     (if \<not> length (dec (unat (id_ev e))) + 2 \<le> 10 then None
      else list_loop_p1 es (out @ ''Event: '' @ dec (unat (id_ev e)) @ [newline]))"

definition ems_list_events_p1 :: "Event list option \<Rightarrow> (result \<times> string) option" where
  "ems_list_events_p1 event_list =
     (case event_list of
        None \<Rightarrow> Some ((1, [NotInitialized]), [])
      | Some l \<Rightarrow>
          if l = [] then Some ((0, [NoEvents]), [])
          else case list_loop_p1 l [] of
            None \<Rightarrow> None
          | Some out \<Rightarrow> Some ((0, []), out))"

section \<open>Notions used by the properties\<close>

text \<open>
  An event as \<^verbatim>\<open>ems_create\<close> makes it when \<open>rows * cols\<close> does not wrap around: the
  array has one cell for each seat.
\<close>

definition wf_event :: "Event \<Rightarrow> bool" where
  "wf_event e \<longleftrightarrow>
     length (data e) = unat (rows e) * unat (cols e) \<and> unat (rows e) * unat (cols e) < 2 ^ 64"

text \<open>The cell of a seat, as an index of the list \<open>data\<close>.\<close>

definition cell :: "Event \<Rightarrow> seat \<Rightarrow> nat" where
  "cell e s = unat (seat_index e (fst s) (snd s))"

text \<open>The array \<open>d\<close> with the value \<open>v\<close> in the cells \<open>K\<close> and as it was elsewhere.\<close>

definition mark_cells :: "u32 \<Rightarrow> nat set \<Rightarrow> u32 list \<Rightarrow> u32 list" where
  "mark_cells v K d = map (\<lambda>k. if k \<in> K then v else d ! k) [0..<length d]"

text \<open>
  The event after a reservation of \<open>seats\<close> that succeeds: the counter is one more,
  every requested cell holds the new counter and the other cells are as they were.
\<close>

definition reserved :: "Event \<Rightarrow> seat list \<Rightarrow> Event" where
  "reserved e seats =
     e\<lparr>reservations := reservations e + 1,
       data := mark_cells (reservations e + 1) (cell e ` set seats) (data e)\<rparr>"

text \<open>
  A sequence of \<^verbatim>\<open>ems_reserve\<close> calls on one event, by either variant \<open>f\<close>. It collects
  the reservation ids of the calls that return 0: the value \<^verbatim>\<open>++event->reservations\<close>
  gave to \<^verbatim>\<open>reservation_id\<close>, which is the counter after the call.
\<close>

fun reserve_all ::
  "(Event \<Rightarrow> seat list \<Rightarrow> (result \<times> Event) option) \<Rightarrow> Event \<Rightarrow> seat list list \<Rightarrow>
     (u32 list \<times> Event) option" where
  "reserve_all f e [] = Some ([], e)"
| "reserve_all f e (r # rs) =
     (case f e r of
        None \<Rightarrow> None
      | Some ((rc, msgs), e') \<Rightarrow>
          (case reserve_all f e' rs of
             None \<Rightarrow> None
           | Some (ids, e'') \<Rightarrow> Some ((if rc = 0 then [reservations e'] else []) @ ids, e'')))"

text \<open>One request for each of the first \<open>n\<close> seats of row 1, each for that seat alone.\<close>

definition row_requests :: "nat \<Rightarrow> seat list list" where
  "row_requests n = map (\<lambda>j. [(1, of_nat j)]) [1..<Suc n]"

text \<open>The event \<^verbatim>\<open>ems_create\<close> builds, in both variants: counter 0 and every cell 0.\<close>

definition new_event :: "u32 \<Rightarrow> size_t \<Rightarrow> size_t \<Rightarrow> Event" where
  "new_event event_id num_rows num_cols =
     \<lparr>id_ev = event_id, rows = num_rows, cols = num_cols, reservations = 0,
      data = replicate (unat (num_rows * num_cols)) 0\<rparr>"

text \<open>A sequence of \<^verbatim>\<open>ems_create\<close> calls; it collects the values returned.\<close>

fun creates_p2 ::
  "sys \<Rightarrow> EventList ptr \<Rightarrow> (u32 \<times> size_t \<times> size_t) list \<Rightarrow> (int list \<times> EventList ptr) option" where
  "creates_p2 sys st [] = Some ([], st)"
| "creates_p2 sys st ((i, r, c) # cs) =
     (case ems_create_p2 sys st i r c of
        None \<Rightarrow> None
      | Some ((rc, msgs), st') \<Rightarrow>
          (case creates_p2 sys st' cs of
             None \<Rightarrow> None
           | Some (rcs, st'') \<Rightarrow> Some (rc # rcs, st'')))"

fun creates_p1 ::
  "sys \<Rightarrow> Event list option \<Rightarrow> (u32 \<times> size_t \<times> size_t) list \<Rightarrow>
     (int list \<times> Event list option) option" where
  "creates_p1 sys st [] = Some ([], st)"
| "creates_p1 sys st ((i, r, c) # cs) =
     (case ems_create_p1 sys st i r c of
        None \<Rightarrow> None
      | Some ((rc, msgs), st') \<Rightarrow>
          (case creates_p1 sys st' cs of
             None \<Rightarrow> None
           | Some (rcs, st'') \<Rightarrow> Some (rc # rcs, st'')))"

text \<open>
  The text of a grid as the spec describes the output of SHOW: "a row-major grid of
  integers with single-space column separators and newline row separators".
\<close>

fun row_text :: "u32 list \<Rightarrow> string" where
  "row_text [] = [newline]"
| "row_text [v] = dec (unat v) @ [newline]"
| "row_text (v # vs) = dec (unat v) @ '' '' @ row_text vs"

text \<open>The rows of an event's grid, with the cell of (row, col) at the index
  \<open>(row - 1) * cols + (col - 1)\<close> of the array, and their text.\<close>

definition grid_rows :: "Event \<Rightarrow> u32 list list" where
  "grid_rows e =
     map (\<lambda>row. map (\<lambda>col. data e ! ((row - 1) * unat (cols e) + (col - 1)))
                  [1..<Suc (unat (cols e))])
       [1..<Suc (unat (rows e))]"

definition grid_text :: "Event \<Rightarrow> string" where
  "grid_text e = concat (map row_text (grid_rows e))"

text \<open>The text of LIST: a line "Event: <id>" for each event.\<close>

definition event_line :: "u32 \<Rightarrow> string" where
  "event_line i = ''Event: '' @ dec (unat i) @ [newline]"

text \<open>Concrete states for the examples: an event with the id 1, and the list structure of
  Proj2 around a list of events.\<close>

definition event1 :: "size_t \<Rightarrow> size_t \<Rightarrow> u32 \<Rightarrow> u32 list \<Rightarrow> Event" where
  "event1 r c n d = \<lparr>id_ev = 1, rows = r, cols = c, reservations = n, data = d\<rparr>"

definition registry :: "Event list \<Rightarrow> EventList" where
  "registry es = \<lparr>events = es, num_events = of_nat (length es)\<rparr>"

section \<open>Seat indices\<close>

lemma seat_index_frame [simp]:
  "seat_index (e\<lparr>reservations := r\<rparr>) = seat_index e"
  "seat_index (e\<lparr>data := d\<rparr>) = seat_index e"
  by (simp_all add: seat_index_def fun_eq_iff)

lemma out_of_bounds_frame [simp]:
  "out_of_bounds (e\<lparr>reservations := r\<rparr>) = out_of_bounds e"
  "out_of_bounds (e\<lparr>data := d\<rparr>) = out_of_bounds e"
  by (simp_all add: out_of_bounds_def fun_eq_iff)

lemma cell_frame [simp]:
  "cell (e\<lparr>reservations := r\<rparr>) = cell e"
  "cell (e\<lparr>data := d\<rparr>) = cell e"
  by (simp_all add: cell_def fun_eq_iff)

lemma unat_of_nat_le:
  fixes w :: size_t
  assumes "i \<le> unat w"
  shows "unat (of_nat i :: size_t) = i"
proof -
  have "unat w < 2 ^ 64" using unsigned_less[of w] by simp
  then show ?thesis using assms by (simp add: unat_of_nat)
qed

lemma in_bounds_nat:
  assumes "\<not> out_of_bounds e (x, y)"
  shows "1 \<le> unat x" "unat x \<le> unat (rows e)" "1 \<le> unat y" "unat y \<le> unat (cols e)"
  using assms
  by (simp_all add: out_of_bounds_def word_le_nat_alt word_less_nat_alt not_le not_less Suc_le_eq)

lemma row_major_bound:
  assumes x: "1 \<le> (a::nat)" "a \<le> r" and y: "1 \<le> (b::nat)" "b \<le> c"
  shows "(a - 1) * c + (b - 1) < r * c"
proof -
  have "(a - 1) * c + c = a * c" using x by (cases a) simp_all
  also have "\<dots> \<le> r * c" using x by simp
  finally show ?thesis using y by linarith
qed

lemma unat_seat_index:
  assumes "unat (rows e) * unat (cols e) < 2 ^ 64" "\<not> out_of_bounds e (x, y)"
  shows "unat (seat_index e x y) = (unat x - 1) * unat (cols e) + (unat y - 1)"
proof -
  note b = in_bounds_nat[OF assms(2)]
  have lt: "(unat x - 1) * unat (cols e) + (unat y - 1) < unat (rows e) * unat (cols e)"
    using b by (rule row_major_bound)
  have x1: "unat (x - 1) = unat x - 1"
    using b(1) by (simp add: unat_sub word_le_nat_alt)
  have m: "unat ((x - 1) * cols e) = (unat x - 1) * unat (cols e)"
  proof -
    have "unat (x - 1) * unat (cols e) < 2 ^ LENGTH(64)"
      using lt assms(1) x1 by simp
    then show ?thesis using x1 by (simp add: unat_mult_lem[THEN iffD1])
  qed
  have a: "unat ((x - 1) * cols e + y) = (unat x - 1) * unat (cols e) + unat y"
  proof -
    have "unat ((x - 1) * cols e) + unat y < 2 ^ LENGTH(64)"
      using lt assms(1) m b by simp
    then show ?thesis using m by (simp add: unat_add_lem[THEN iffD1])
  qed
  have "1 \<le> (x - 1) * cols e + y"
    using a b(3) by (simp add: word_le_nat_alt)
  then have "unat ((x - 1) * cols e + y - 1) = unat ((x - 1) * cols e + y) - 1"
    by (simp add: unat_sub word_le_nat_alt)
  then show ?thesis using a b(3) by (simp add: seat_index_def)
qed

lemma cell_eq:
  assumes "wf_event e" "\<not> out_of_bounds e s"
  shows "cell e s = (unat (fst s) - 1) * unat (cols e) + (unat (snd s) - 1)"
  using assms unat_seat_index[of e "fst s" "snd s"] by (simp add: wf_event_def cell_def)

lemma cell_less:
  assumes "wf_event e" "\<not> out_of_bounds e s"
  shows "cell e s < length (data e)"
proof -
  have "\<not> out_of_bounds e (fst s, snd s)" using assms(2) by simp
  note b = in_bounds_nat[OF this]
  show ?thesis using row_major_bound[OF b] cell_eq[OF assms] assms(1)
    by (simp add: wf_event_def)
qed

lemma cell_inj:
  assumes wf: "wf_event e" and s: "\<not> out_of_bounds e s" and t: "\<not> out_of_bounds e t"
    and eq: "cell e s = cell e t"
  shows "s = t"
proof -
  have s': "\<not> out_of_bounds e (fst s, snd s)" and t': "\<not> out_of_bounds e (fst t, snd t)"
    using s t by simp_all
  note bs = in_bounds_nat[OF s'] and bt = in_bounds_nat[OF t']
  let ?c = "unat (cols e)"
  have e: "(unat (fst s) - 1) * ?c + (unat (snd s) - 1) = (unat (fst t) - 1) * ?c + (unat (snd t) - 1)"
    using eq cell_eq[OF wf s] cell_eq[OF wf t] by simp
  have ls: "unat (snd s) - 1 < ?c" and lt: "unat (snd t) - 1 < ?c" using bs bt by linarith+
  have "((unat (fst s) - 1) * ?c + (unat (snd s) - 1)) div ?c = unat (fst s) - 1"
    using ls by simp
  moreover have "((unat (fst t) - 1) * ?c + (unat (snd t) - 1)) div ?c = unat (fst t) - 1"
    using lt by simp
  ultimately have r: "unat (fst s) - 1 = unat (fst t) - 1" using e by simp
  then have "unat (snd s) - 1 = unat (snd t) - 1" using e by simp
  with r bs bt have "unat (fst s) = unat (fst t)" "unat (snd s) = unat (snd t)" by linarith+
  then show ?thesis by (simp add: prod_eq_iff word_unat_eq_iff)
qed

section \<open>The loops of the reservation\<close>

lemma bounds_loop_iff: "bounds_loop e seats \<longleftrightarrow> (\<exists>s\<in>set seats. out_of_bounds e s)"
  by (induction seats) auto

lemma write_seats_length: "write_seats e v ss d = Some d' \<Longrightarrow> length d' = length d"
  by (induction e v ss d rule: write_seats.induct) (auto split: if_splits)

lemma write_seats_nth:
  "write_seats e v ss d = Some d' \<Longrightarrow> k < length d \<Longrightarrow>
     d' ! k = (if k \<in> cell e ` set ss then v else d ! k)"
proof (induction e v ss d rule: write_seats.induct)
  case (1 e v d)
  then show ?case by simp
next
  case (2 e v x y ss d)
  then show ?case
    by (auto simp: cell_def nth_list_update split: if_splits)
qed

lemma write_seats_Some:
  "\<forall>s\<in>set ss. cell e s < length d \<Longrightarrow> \<exists>d'. write_seats e v ss d = Some d'"
  by (induction e v ss d rule: write_seats.induct) (auto simp: cell_def)

lemma scan_requests_eq:
  "i < length (data e) \<Longrightarrow>
     scan_requests e i ss = Some (i \<in> cell e ` set ss \<and> data e ! i \<noteq> 0)"
  by (induction e i ss rule: scan_requests.induct) (auto simp: cell_def)

lemma scan_grid_eq:
  "\<forall>i\<in>set is. i < length (data e) \<Longrightarrow>
     scan_grid e ss is = Some (\<exists>i\<in>set is. i \<in> cell e ` set ss \<and> data e ! i \<noteq> 0)"
  by (induction "is") (auto simp: scan_requests_eq split: bool.splits)

lemma scan_grid_all:
  assumes wf: "wf_event e" and inb: "\<forall>s\<in>set ss. \<not> out_of_bounds e s"
  shows "scan_grid e ss [0..<unat (rows e * cols e)] = Some (\<exists>s\<in>set ss. data e ! cell e s \<noteq> 0)"
proof -
  have n: "unat (rows e * cols e) = length (data e)"
    using wf by (simp add: wf_event_def unat_mult_lem[THEN iffD1])
  have "scan_grid e ss [0..<length (data e)]
      = Some (\<exists>i\<in>set [0..<length (data e)]. i \<in> cell e ` set ss \<and> data e ! i \<noteq> 0)"
    by (rule scan_grid_eq) simp
  moreover have "(\<exists>i\<in>set [0..<length (data e)]. i \<in> cell e ` set ss \<and> data e ! i \<noteq> 0)
      \<longleftrightarrow> (\<exists>s\<in>set ss. data e ! cell e s \<noteq> 0)"
    using cell_less[OF wf] inb by auto
  ultimately show ?thesis using n by simp
qed

lemma claim_loop_Cons_cases:
  assumes "claim_loop e v ((x, y) # ss) d = Some (i, msgs, d')"
  obtains
    (oob) "out_of_bounds e (x, y)" "i = 0" "msgs = [InvalidSeat]" "d' = d"
  | (taken) "\<not> out_of_bounds e (x, y)" "unat (seat_index e x y) < length d"
      "d ! unat (seat_index e x y) \<noteq> 0" "i = 0" "msgs = [SeatAlreadyReserved]" "d' = d"
  | (step) j where "\<not> out_of_bounds e (x, y)" "unat (seat_index e x y) < length d"
      "d ! unat (seat_index e x y) = 0" "i = Suc j"
      "claim_loop e v ss (d[unat (seat_index e x y) := v]) = Some (j, msgs, d')"
  using assms by (auto split: if_splits option.splits)

lemma claim_loop_length:
  "claim_loop e v ss d = Some (i, msgs, d') \<Longrightarrow> length d' = length d \<and> i \<le> length ss"
proof (induction ss arbitrary: d i msgs d')
  case Nil
  then show ?case by simp
next
  case (Cons s ss)
  obtain x y where s: "s = (x, y)" by (cases s)
  from Cons.prems[unfolded s] show ?case
  proof (cases rule: claim_loop_Cons_cases)
    case (step j)
    then show ?thesis using Cons.IH[OF step(5)] by simp
  qed simp_all
qed

lemma claim_loop_Some:
  assumes "length d = unat (rows e) * unat (cols e)" "unat (rows e) * unat (cols e) < 2 ^ 64"
  shows "\<exists>r. claim_loop e v ss d = Some r"
  using assms(1)
proof (induction ss arbitrary: d)
  case Nil
  then show ?case by simp
next
  case (Cons s ss)
  obtain x y where s: "s = (x, y)" by (cases s)
  show ?case
  proof (cases "out_of_bounds e (x, y)")
    case True
    then show ?thesis by (simp add: s)
  next
    case False
    note b = in_bounds_nat[OF False]
    have "unat (seat_index e x y) < length d"
      using unat_seat_index[OF assms(2) False] row_major_bound[OF b] Cons.prems by simp
    moreover obtain r where "claim_loop e v ss (d[unat (seat_index e x y) := v]) = Some r"
      using Cons.IH[of "d[unat (seat_index e x y) := v]"] Cons.prems by auto
    ultimately show ?thesis using False by (cases r) (auto simp: s)
  qed
qed

lemma claim_loop_in_bounds:
  "claim_loop e v ss d = Some (i, msgs, d') \<Longrightarrow> \<forall>s\<in>set (take i ss). \<not> out_of_bounds e s"
proof (induction ss arbitrary: d i msgs d')
  case Nil
  then show ?case by simp
next
  case (Cons s ss)
  obtain x y where s: "s = (x, y)" by (cases s)
  from Cons.prems[unfolded s] show ?case
  proof (cases rule: claim_loop_Cons_cases)
    case (step j)
    then show ?thesis using Cons.IH[OF step(5)] by (simp add: s)
  qed simp_all
qed

lemma claim_loop_msgs:
  "claim_loop e v ss d = Some (i, msgs, d') \<Longrightarrow>
     (i = length ss \<and> msgs = []) \<or>
     (i < length ss \<and> out_of_bounds e (ss ! i) \<and> msgs = [InvalidSeat]) \<or>
     (i < length ss \<and> \<not> out_of_bounds e (ss ! i) \<and> msgs = [SeatAlreadyReserved])"
proof (induction ss arbitrary: d i msgs d')
  case Nil
  then show ?case by simp
next
  case (Cons s ss)
  obtain x y where s: "s = (x, y)" by (cases s)
  from Cons.prems[unfolded s] show ?case
  proof (cases rule: claim_loop_Cons_cases)
    case (step j)
    then show ?thesis using Cons.IH[OF step(5)] by (simp add: s)
  qed (simp_all add: s)
qed

lemma claim_loop_nth:
  "claim_loop e v ss d = Some (i, msgs, d') \<Longrightarrow> k < length d \<Longrightarrow>
     d' ! k = (if k \<in> cell e ` set (take i ss) then v else d ! k)"
proof (induction ss arbitrary: d i msgs d')
  case Nil
  then show ?case by simp
next
  case (Cons s ss)
  obtain x y where s: "s = (x, y)" by (cases s)
  from Cons.prems(1)[unfolded s] show ?case
  proof (cases rule: claim_loop_Cons_cases)
    case (step j)
    let ?c = "unat (seat_index e x y)"
    have "d' ! k = (if k \<in> cell e ` set (take j ss) then v else d[?c := v] ! k)"
      using Cons.IH[OF step(5)] Cons.prems(2) by simp
    then show ?thesis using step(2,4) Cons.prems(2)
      by (auto simp: s cell_def nth_list_update)
  qed simp_all
qed

lemma claim_loop_zero:
  "claim_loop e v ss d = Some (i, msgs, d') \<Longrightarrow> \<forall>s\<in>set (take i ss). d ! cell e s = 0"
proof (induction ss arbitrary: d i msgs d')
  case Nil
  then show ?case by simp
next
  case (Cons s ss)
  obtain x y where s: "s = (x, y)" by (cases s)
  from Cons.prems(1)[unfolded s] show ?case
  proof (cases rule: claim_loop_Cons_cases)
    case (step j)
    let ?c = "unat (seat_index e x y)"
    have ih: "\<forall>t\<in>set (take j ss). d[?c := v] ! cell e t = 0"
      using Cons.IH[OF step(5)] .
    have "d ! cell e t = 0" if t: "t \<in> set (take j ss)" for t
    proof (cases "?c = cell e t")
      case True
      then show ?thesis using step(3) by simp
    next
      case False
      then have "d[?c := v] ! cell e t = d ! cell e t" by (rule nth_list_update_neq)
      then show ?thesis using ih t by auto
    qed
    then show ?thesis using step(3,4) by (auto simp: s cell_def)
  qed simp_all
qed

lemma claim_loop_stop:
  "claim_loop e v ss d = Some (i, msgs, d') \<Longrightarrow> i < length ss \<Longrightarrow>
     out_of_bounds e (ss ! i) \<or> d' ! cell e (ss ! i) \<noteq> 0"
proof (induction ss arbitrary: d i msgs d')
  case Nil
  then show ?case by simp
next
  case (Cons s ss)
  obtain x y where s: "s = (x, y)" by (cases s)
  from Cons.prems(1)[unfolded s] show ?case
  proof (cases rule: claim_loop_Cons_cases)
    case (step j)
    then show ?thesis using Cons.IH[OF step(5)] Cons.prems(2) by (simp add: s)
  qed (simp_all add: s cell_def)
qed

lemma mark_cells_length [simp]: "length (mark_cells v K d) = length d"
  by (simp add: mark_cells_def)

lemma mark_cells_nth [simp]:
  "k < length d \<Longrightarrow> mark_cells v K d ! k = (if k \<in> K then v else d ! k)"
  by (simp add: mark_cells_def)

lemma write_seats_eq:
  assumes "\<forall>s\<in>set ss. cell e s < length d"
  shows "write_seats e v ss d = Some (mark_cells v (cell e ` set ss) d)"
proof -
  obtain d' where d': "write_seats e v ss d = Some d'"
    using write_seats_Some[OF assms] by blast
  have "d' = mark_cells v (cell e ` set ss) d"
  proof (rule nth_equalityI)
    show "length d' = length (mark_cells v (cell e ` set ss) d)"
      using write_seats_length[OF d'] by simp
  next
    fix k assume "k < length d'"
    then have k: "k < length d" using write_seats_length[OF d'] by simp
    show "d' ! k = mark_cells v (cell e ` set ss) d ! k"
      using write_seats_nth[OF d' k] k by simp
  qed
  with d' show ?thesis by simp
qed

lemma claim_loop_data:
  assumes "claim_loop e v ss d = Some (i, msgs, d')"
  shows "d' = mark_cells v (cell e ` set (take i ss)) d"
proof (rule nth_equalityI)
  show "length d' = length (mark_cells v (cell e ` set (take i ss)) d)"
    using claim_loop_length[OF assms] by simp
next
  fix k assume "k < length d'"
  then have k: "k < length d" using claim_loop_length[OF assms] by simp
  show "d' ! k = mark_cells v (cell e ` set (take i ss)) d ! k"
    using claim_loop_nth[OF assms k] k by simp
qed

lemma mark_cells_undo:
  assumes "\<forall>k\<in>K. k < length d \<longrightarrow> d ! k = 0"
  shows "mark_cells 0 K (mark_cells v K d) = d"
  by (rule nth_equalityI) (use assms in auto)

text \<open>The roll-back of Proj1 restores the cells.\<close>

lemma claim_loop_rollback:
  assumes wf: "wf_event e" and len: "length d = length (data e)"
    and cl: "claim_loop e v ss d = Some (i, msgs, d')"
  shows "write_seats e 0 (take i ss) d' = Some d"
proof -
  let ?K = "cell e ` set (take i ss)"
  have d': "d' = mark_cells v ?K d" using claim_loop_data[OF cl] .
  have inb: "\<forall>s\<in>set (take i ss). cell e s < length d'"
    using claim_loop_in_bounds[OF cl] cell_less[OF wf] len d' by simp
  have "write_seats e 0 (take i ss) d' = Some (mark_cells 0 ?K d')"
    using inb by (rule write_seats_eq)
  moreover have "mark_cells 0 ?K d' = d"
    unfolding d' using claim_loop_zero[OF cl] by (intro mark_cells_undo) auto
  ultimately show ?thesis by simp
qed

lemma write_seats_frame [simp]:
  "write_seats (e\<lparr>reservations := r\<rparr>) v ss d = write_seats e v ss d"
  by (induction ss arbitrary: d) auto

lemma claim_loop_frame [simp]:
  "claim_loop (e\<lparr>reservations := r\<rparr>) v ss d = claim_loop e v ss d"
  by (induction ss arbitrary: d) auto

text \<open>What Proj2's reservation does to a well-formed event.\<close>

lemma reserve_event_p2_eq:
  assumes wf: "wf_event e"
  shows "reserve_event_p2 e ss =
     Some (if \<exists>s\<in>set ss. out_of_bounds e s then ((1, [InvalidSeat]), e)
           else if \<exists>s\<in>set ss. data e ! cell e s \<noteq> 0 then ((1, [SeatAlreadyReserved]), e)
           else ((0, []), reserved e ss))"
proof (cases "\<exists>s\<in>set ss. out_of_bounds e s")
  case True
  then show ?thesis by (simp add: reserve_event_p2_def bounds_loop_iff)
next
  case False
  then have inb: "\<forall>s\<in>set ss. \<not> out_of_bounds e s" by simp
  have scan: "scan_grid e ss [0..<unat (rows e * cols e)] = Some (\<exists>s\<in>set ss. data e ! cell e s \<noteq> 0)"
    using scan_grid_all[OF wf inb] .
  have wr: "write_seats e v ss (data e) = Some (mark_cells v (cell e ` set ss) (data e))" for v
    using inb cell_less[OF wf] by (intro write_seats_eq) auto
  show ?thesis
    using False scan wr by (simp add: reserve_event_p2_def bounds_loop_iff Let_def reserved_def)
qed

section \<open>One reservation\<close>

lemma reserve_event_p1_eq:
  assumes wf: "wf_event e"
  obtains i msgs d where
    "claim_loop e (reservations e + 1) ss (data e) = Some (i, msgs, d)"
    "reserve_event_p1 e ss =
       Some (if i < length ss then ((1, msgs), e)
             else ((0, []), reserved e ss))"
proof -
  let ?v = "reservations e + 1"
  obtain r where "claim_loop e ?v ss (data e) = Some r"
    using claim_loop_Some[of "data e" e ?v ss] wf by (auto simp: wf_event_def)
  then obtain i msgs d where cl: "claim_loop e ?v ss (data e) = Some (i, msgs, d)"
    by (cases r) auto
  have le: "i \<le> length ss" using claim_loop_length[OF cl] by simp
  show ?thesis
  proof (cases "i < length ss")
    case True
    have "write_seats e 0 (take i ss) d = Some (data e)"
      using claim_loop_rollback[OF wf _ cl] by simp
    then have "reserve_event_p1 e ss = Some ((1, msgs), e)"
      using cl True by (simp add: reserve_event_p1_def Let_def)
    then show ?thesis using that[OF cl] True by simp
  next
    case False
    then have i: "i = length ss" using le by simp
    have "msgs = []" using claim_loop_msgs[OF cl] i by auto
    moreover have "d = mark_cells ?v (cell e ` set ss) (data e)"
      using claim_loop_data[OF cl] i by simp
    ultimately have "reserve_event_p1 e ss =
        Some ((0, []), reserved e ss)"
      using cl i by (simp add: reserve_event_p1_def Let_def reserved_def)
    then show ?thesis using that[OF cl] False by simp
  qed
qed

lemma nth_notin_take:
  assumes "distinct xs" "i < length xs"
  shows "xs ! i \<notin> set (take i xs)"
proof -
  have "xs = take i xs @ xs ! i # drop (Suc i) xs"
    using assms(2) by (rule id_take_nth_drop)
  then have "distinct (take i xs @ xs ! i # drop (Suc i) xs)" using assms(1) by simp
  then show ?thesis by simp
qed

text \<open>With no seat listed twice, the claiming loop stops early only at a seat that is
  out of bounds or was taken before the call.\<close>

lemma claim_loop_stop_distinct:
  assumes wf: "wf_event e" and len: "length d = length (data e)"
    and cl: "claim_loop e v ss d = Some (i, msgs, d')" and i: "i < length ss"
    and dist: "distinct ss"
  shows "out_of_bounds e (ss ! i) \<or> d ! cell e (ss ! i) \<noteq> 0"
proof (cases "out_of_bounds e (ss ! i)")
  case True
  then show ?thesis by simp
next
  case False
  then have nz: "d' ! cell e (ss ! i) \<noteq> 0" using claim_loop_stop[OF cl i] by simp
  have c: "cell e (ss ! i) < length d" using cell_less[OF wf False] len by simp
  have "cell e (ss ! i) \<notin> cell e ` set (take i ss)"
  proof
    assume "cell e (ss ! i) \<in> cell e ` set (take i ss)"
    then obtain t where t: "t \<in> set (take i ss)" "cell e (ss ! i) = cell e t" by auto
    have "\<not> out_of_bounds e t" using claim_loop_in_bounds[OF cl] t(1) by simp
    then have "ss ! i = t" using cell_inj[OF wf False _ t(2)] by simp
    then show False using t(1) nth_notin_take[OF dist i] by simp
  qed
  then have "d' ! cell e (ss ! i) = d ! cell e (ss ! i)"
    using claim_loop_nth[OF cl c] by simp
  then show ?thesis using nz by simp
qed

text \<open>With an id other than 0, the claiming loop runs to its end only on a request that lists
  no seat twice: at the second listing it finds its own mark.\<close>

lemma claim_loop_all_distinct:
  assumes "claim_loop e v ss d = Some (length ss, msgs, d')" and "v \<noteq> 0"
  shows "distinct ss"
  using assms(1)
proof (induction ss arbitrary: d)
  case Nil
  then show ?case by simp
next
  case (Cons s ss)
  obtain x y where s: "s = (x, y)" by (cases s)
  from Cons.prems[unfolded s] show ?case
  proof (cases rule: claim_loop_Cons_cases)
    case (step j)
    let ?c = "unat (seat_index e x y)"
    have j: "j = length ss" using step(4) by simp
    have cl: "claim_loop e v ss (d[?c := v]) = Some (length ss, msgs, d')"
      using step(5) j by simp
    have "s \<notin> set ss"
    proof
      assume "s \<in> set ss"
      then have "d[?c := v] ! cell e s = 0" using claim_loop_zero[OF cl] by simp
      moreover have "d[?c := v] ! cell e s = v" using step(2) by (simp add: s cell_def)
      ultimately show False using assms(2) by simp
    qed
    then show ?thesis using Cons.IH[OF cl] by simp
  qed simp_all
qed

lemma get_event_Some:
  "get_event es i = Some k \<Longrightarrow> k < length es \<and> id_ev (es ! k) = i"
  by (induction es arbitrary: k) (auto split: if_splits)

lemma get_event_None_iff: "get_event es i = None \<longleftrightarrow> (\<forall>e\<in>set es. id_ev e \<noteq> i)"
  by (induction es) auto

lemma reserve_event_p1_outcome:
  assumes wf: "wf_event e"
  shows "(\<exists>msgs. reserve_event_p1 e ss = Some ((1, msgs), e) \<and>
            (msgs = [InvalidSeat] \<or> msgs = [SeatAlreadyReserved])) \<or>
         (reserve_event_p1 e ss =
            Some ((0, []), reserved e ss) \<and>
          (\<forall>s\<in>set ss. \<not> out_of_bounds e s \<and> data e ! cell e s = 0))"
proof -
  obtain i msgs d where
    cl: "claim_loop e (reservations e + 1) ss (data e) = Some (i, msgs, d)" and
    r: "reserve_event_p1 e ss =
       Some (if i < length ss then ((1, msgs), e)
             else ((0, []), reserved e ss))"
    using reserve_event_p1_eq[OF wf] by blast
  show ?thesis
  proof (cases "i < length ss")
    case True
    then show ?thesis using r claim_loop_msgs[OF cl] by auto
  next
    case False
    then have "take i ss = ss" by simp
    then have "\<forall>s\<in>set ss. \<not> out_of_bounds e s \<and> data e ! cell e s = 0"
      using claim_loop_in_bounds[OF cl] claim_loop_zero[OF cl] by simp
    then show ?thesis using r False by simp
  qed
qed

lemma reserve_event_p2_fail:
  "reserve_event_p2 e ss = Some ((rc, msgs), e') \<Longrightarrow> rc \<noteq> 0 \<Longrightarrow> e' = e"
  by (auto simp: reserve_event_p2_def Let_def split: if_splits option.splits bool.splits)

lemma reserved_cells:
  assumes wf: "wf_event e" and inb: "\<forall>s\<in>set ss. \<not> out_of_bounds e s"
  shows "\<forall>s\<in>set ss. data (reserved e ss) ! cell e s = reservations e + 1"
  using cell_less[OF wf] inb by (auto simp: reserved_def)

lemma reserve_event_p2_outcome:
  assumes wf: "wf_event e"
  shows "(\<exists>msgs. reserve_event_p2 e ss = Some ((1, msgs), e) \<and>
            (msgs = [InvalidSeat] \<or> msgs = [SeatAlreadyReserved])) \<or>
         (reserve_event_p2 e ss = Some ((0, []), reserved e ss) \<and>
          (\<forall>s\<in>set ss. \<not> out_of_bounds e s \<and> data e ! cell e s = 0))"
  unfolding reserve_event_p2_eq[OF wf] by auto

text \<open>
  Claim C1 (a reservation is all or nothing). Let \<^verbatim>\<open>ems_reserve\<close> be called for an
  event that \<^verbatim>\<open>get_event\<close> finds, at the position \<open>k\<close> of the list, and that is
  well-formed: its array has one cell for each of its \<open>rows * cols\<close> seats, as the
  data model has it. Then in both variants the call returns, and
  \<^item> either it returns 1 and the list of events is the one before the call, so that no
    seat is left marked, whether a seat is out of bounds, a seat is taken or (in Proj2) a
    lock fails;
  \<^item> or it returns 0 and the event is replaced by \<open>reserved\<close>: its counter is one
    more, and the cell of every requested seat holds that one new counter value.
\<close>

theorem reserve_all_or_nothing:
  assumes "get_event es event_id = Some k" and "wf_event (es ! k)" and "events l = es"
  shows "(\<exists>rc msgs es'.
            ems_reserve_p1 (Some es) event_id seats = Some ((rc, msgs), Some es') \<and>
            (rc = 1 \<and> es' = es \<or>
             rc = 0 \<and> es' = es[k := reserved (es ! k) seats] \<and>
               (\<forall>s\<in>set seats. data (es' ! k) ! cell (es ! k) s = reservations (es ! k) + 1))) \<and>
         (\<exists>rc msgs es'.
            ems_reserve_p2 sys (Live l) event_id seats = Some ((rc, msgs), Live (l\<lparr>events := es'\<rparr>)) \<and>
            (rc = 1 \<and> es' = es \<or>
             rc = 0 \<and> es' = es[k := reserved (es ! k) seats] \<and>
               (\<forall>s\<in>set seats. data (es' ! k) ! cell (es ! k) s = reservations (es ! k) + 1)))"
proof -
  let ?e = "es ! k"
  let ?ok = "\<lambda>rc es'. rc = (1::int) \<and> es' = es \<or>
     rc = 0 \<and> es' = es[k := reserved ?e seats] \<and>
       (\<forall>s\<in>set seats. data (es' ! k) ! cell ?e s = reservations ?e + 1)"
  have k: "k < length es" using get_event_Some[OF assms(1)] by simp
  have l: "l\<lparr>events := es\<rparr> = l" using assms(3) by simp
  have fin: "?ok 0 (es[k := reserved ?e seats])" if "\<forall>s\<in>set seats. \<not> out_of_bounds ?e s"
    using reserved_cells[OF assms(2) that] k by simp
  have p1: "\<exists>rc msgs es'. ems_reserve_p1 (Some es) event_id seats = Some ((rc, msgs), Some es') \<and> ?ok rc es'"
  proof -
    consider (fail) msgs where "reserve_event_p1 ?e seats = Some ((1, msgs), ?e)"
      | (ok) "reserve_event_p1 ?e seats = Some ((0, []), reserved ?e seats)"
          "\<forall>s\<in>set seats. \<not> out_of_bounds ?e s \<and> data ?e ! cell ?e s = 0"
      using reserve_event_p1_outcome[OF assms(2), of seats] by blast
    then show ?thesis
    proof cases
      case fail
    then have "ems_reserve_p1 (Some es) event_id seats = Some ((1, msgs), Some es)"
      using assms(1) k by (simp add: ems_reserve_p1_def)
    then show ?thesis by blast
  next
    case ok
    have "ems_reserve_p1 (Some es) event_id seats = Some ((0, []), Some (es[k := reserved ?e seats]))"
      using assms(1) ok(1) by (simp add: ems_reserve_p1_def)
    moreover have "?ok 0 (es[k := reserved ?e seats])" using ok(2) by (intro fin) simp
    ultimately show ?thesis by blast
  qed
  qed
  have p2: "\<exists>rc msgs es'. ems_reserve_p2 sys (Live l) event_id seats
              = Some ((rc, msgs), Live (l\<lparr>events := es'\<rparr>)) \<and> ?ok rc es'"
  proof (cases "rwlock_ok sys \<and> mutex_ok sys")
    case False
    then have "ems_reserve_p2 sys (Live l) event_id seats = Some ((1, [LockFailure]), Live (l\<lparr>events := es\<rparr>))"
      using assms(1,3) l by (auto simp: ems_reserve_p2_def)
    then show ?thesis by blast
  next
    case True
    consider (fail) msgs where "reserve_event_p2 ?e seats = Some ((1, msgs), ?e)"
      | (ok) "reserve_event_p2 ?e seats = Some ((0, []), reserved ?e seats)"
          "\<forall>s\<in>set seats. \<not> out_of_bounds ?e s \<and> data ?e ! cell ?e s = 0"
      using reserve_event_p2_outcome[OF assms(2), of seats] by blast
    then show ?thesis
    proof cases
      case fail
      then have "ems_reserve_p2 sys (Live l) event_id seats = Some ((1, msgs), Live (l\<lparr>events := es\<rparr>))"
        using assms(1,3) k True by (simp add: ems_reserve_p2_def)
      then show ?thesis by blast
    next
      case ok
      have "ems_reserve_p2 sys (Live l) event_id seats
          = Some ((0, []), Live (l\<lparr>events := es[k := reserved ?e seats]\<rparr>))"
        using assms(1,3) ok(1) True by (simp add: ems_reserve_p2_def)
      moreover have "?ok 0 (es[k := reserved ?e seats])" using ok(2) by (intro fin) simp
      ultimately show ?thesis by blast
    qed
  qed
  show ?thesis using p1 p2 by (rule conjI)
qed

lemmas example_defs = event1_def registry_def ok_sys_def out_of_bounds_def seat_index_def

text \<open>On a free grid of 2 by 2 the request for the seats (1, 1) and (2, 2) marks both with
  the id 1.\<close>

theorem reserve_all_or_nothing_witness:
  "get_event [event1 2 2 0 [0, 0, 0, 0]] 1 = Some 0 \<and>
   wf_event (event1 2 2 0 [0, 0, 0, 0]) \<and>
   ems_reserve_p1 (Some [event1 2 2 0 [0, 0, 0, 0]]) 1 [(1, 1), (2, 2)]
     = Some ((0, []), Some [event1 2 2 1 [1, 0, 0, 1]]) \<and>
   ems_reserve_p2 ok_sys (Live (registry [event1 2 2 0 [0, 0, 0, 0]])) 1 [(1, 1), (2, 2)]
     = Some ((0, []), Live (registry [event1 2 2 1 [1, 0, 0, 1]]))"
proof -
  let ?E = "event1 2 2 0 [0, 0, 0, 0]"
  have h1: "get_event [?E] 1 = Some 0" by (simp add: example_defs)
  have h2: "wf_event ([?E] ! 0)" by (simp add: wf_event_def example_defs)
  have h3: "events (registry [?E]) = [?E]" by (simp add: example_defs)
  note t = reserve_all_or_nothing[OF h1 h2 h3, of "[(1, 1), (2, 2)]" ok_sys]
  have p1: "ems_reserve_p1 (Some [?E]) 1 [(1, 1), (2, 2)]
      = Some ((0, []), Some [event1 2 2 1 [1, 0, 0, 1]])"
    by (simp add: ems_reserve_p1_def reserve_event_p1_def Let_def example_defs)
  have p2: "ems_reserve_p2 ok_sys (Live (registry [?E])) 1 [(1, 1), (2, 2)]
      = Some ((0, []), Live (registry [event1 2 2 1 [1, 0, 0, 1]]))"
    by (simp add: ems_reserve_p2_def reserve_event_p2_def Let_def example_defs upt_rec)
  show ?thesis using t p1 p2 h1 h2 by simp
qed




text \<open>
  Claim C2, as amended (the two strategies agree, but for one kind of request). On a
  well-formed event:
  \<^item> for a request that lists no seat twice, or that has a seat out of bounds or already
    reserved, or when the new id \<^verbatim>\<open>++event->reservations\<close> is 0, the strategy of Proj1
    (claim the seats one at a time, roll back at the first problem) and the strategy of
    Proj2 (scan, then mark) return the same value and leave the same event: the same
    grid and the same counter. The messages may differ;
  \<^item> for every other request, that is, one that lists a seat twice and whose seats are all
    in bounds and free, with a new id other than 0, Proj2 returns 0 and marks the seats,
    while Proj1 meets its own mark at the seat listed twice, reports the seat as already
    reserved, rolls back and returns 1 with the event as it was.
\<close>

theorem reserve_variants_agree:
  assumes wf: "wf_event e"
  shows "(distinct seats \<or> (\<exists>s\<in>set seats. out_of_bounds e s \<or> data e ! cell e s \<noteq> 0) \<or>
          reservations e + 1 = 0 \<longrightarrow>
            (\<exists>rc msgs1 msgs2 e'.
               reserve_event_p1 e seats = Some ((rc, msgs1), e') \<and>
               reserve_event_p2 e seats = Some ((rc, msgs2), e'))) \<and>
         (\<not> distinct seats \<and> (\<forall>s\<in>set seats. \<not> out_of_bounds e s \<and> data e ! cell e s = 0) \<and>
          reservations e + 1 \<noteq> 0 \<longrightarrow>
            reserve_event_p1 e seats = Some ((1, [SeatAlreadyReserved]), e) \<and>
            reserve_event_p2 e seats = Some ((0, []), reserved e seats))"
proof -
  obtain i msgs d where
    cl: "claim_loop e (reservations e + 1) seats (data e) = Some (i, msgs, d)" and
    r: "reserve_event_p1 e seats =
       Some (if i < length seats then ((1, msgs), e) else ((0, []), reserved e seats))"
    using reserve_event_p1_eq[OF wf] by blast
  show ?thesis
  proof (cases "i < length seats")
    case True
    then have p1: "reserve_event_p1 e seats = Some ((1, msgs), e)" using r by simp
    show ?thesis
    proof (cases "\<exists>s\<in>set seats. out_of_bounds e s \<or> data e ! cell e s \<noteq> 0")
      case bad: True
      then have "\<exists>msgs2. reserve_event_p2 e seats = Some ((1, msgs2), e)"
        unfolding reserve_event_p2_eq[OF wf] by auto
      then show ?thesis using p1 bad by auto
    next
      case False
      then have free: "\<forall>s\<in>set seats. \<not> out_of_bounds e s \<and> data e ! cell e s = 0" by simp
      have mem: "seats ! i \<in> set seats" using True by simp
      have inb: "\<not> out_of_bounds e (seats ! i)" and z: "data e ! cell e (seats ! i) = 0"
        using free mem by simp_all
      have nd: "\<not> distinct seats"
      proof
        assume "distinct seats"
        then have "out_of_bounds e (seats ! i) \<or> data e ! cell e (seats ! i) \<noteq> 0"
          using claim_loop_stop_distinct[OF wf _ cl True] by simp
        then show False using inb z by simp
      qed
      have nz: "d ! cell e (seats ! i) \<noteq> 0" using claim_loop_stop[OF cl True] inb by simp
      have "d ! cell e (seats ! i)
          = (if cell e (seats ! i) \<in> cell e ` set (take i seats) then reservations e + 1
             else data e ! cell e (seats ! i))"
        using cell_less[OF wf inb] by (intro claim_loop_nth[OF cl])
      then have v: "reservations e + 1 \<noteq> 0" using nz z by (simp split: if_splits)
      have m: "msgs = [SeatAlreadyReserved]" using claim_loop_msgs[OF cl] True inb by auto
      have p2: "reserve_event_p2 e seats = Some ((0, []), reserved e seats)"
        unfolding reserve_event_p2_eq[OF wf] using free by auto
      show ?thesis using p1 p2 m nd v False by simp
    qed
  next
    case False
    then have i: "i = length seats" using claim_loop_length[OF cl] by simp
    then have "take i seats = seats" by simp
    then have free: "\<forall>s\<in>set seats. \<not> out_of_bounds e s \<and> data e ! cell e s = 0"
      using claim_loop_in_bounds[OF cl] claim_loop_zero[OF cl] by simp
    then have p2: "reserve_event_p2 e seats = Some ((0, []), reserved e seats)"
      unfolding reserve_event_p2_eq[OF wf] by auto
    have p1: "reserve_event_p1 e seats = Some ((0, []), reserved e seats)" using r False by simp
    have "distinct seats" if "reservations e + 1 \<noteq> 0"
      using claim_loop_all_distinct[OF cl[unfolded i] that] .
    then show ?thesis using p1 p2 by auto
  qed
qed

text \<open>
  Claim C10 (a failed reservation of Proj2 changes nothing). Whenever Proj2's
  \<^verbatim>\<open>ems_reserve\<close> returns a value other than 0, the state after the call is the state
  before it: the counter and the grid of every event are unchanged, so the call has
  consumed no reservation id. This holds for every failure: the state not initialised,
  a lock not taken, the event not found, a seat out of bounds, a seat already reserved.
\<close>

theorem reserve_p2_failure_frame:
  assumes "ems_reserve_p2 sys event_list event_id seats = Some ((rc, msgs), event_list')"
    and "rc \<noteq> 0"
  shows "event_list' = event_list"
proof (cases event_list)
  case NULL
  then show ?thesis using assms by (simp add: ems_reserve_p2_def)
next
  case Dangling
  then show ?thesis using assms by (simp add: ems_reserve_p2_def)
next
  case (Live l)
  show ?thesis
  proof (cases "get_event (events l) event_id")
    case None
    then show ?thesis using assms Live by (auto simp: ems_reserve_p2_def split: if_splits)
  next
    case (Some k)
    have k: "k < length (events l)" using get_event_Some[OF Some] by simp
    show ?thesis
    proof (cases "rwlock_ok sys \<and> mutex_ok sys")
      case False
      then show ?thesis using assms Live Some by (auto simp: ems_reserve_p2_def split: if_splits)
    next
      case True
      then obtain e' where e': "reserve_event_p2 (events l ! k) seats = Some ((rc, msgs), e')"
        and el: "event_list' = Live (l\<lparr>events := (events l)[k := e']\<rparr>)"
        using assms(1) Live Some by (auto simp: ems_reserve_p2_def split: option.splits)
      have "e' = events l ! k" using reserve_event_p2_fail[OF e' assms(2)] .
      then show ?thesis using el Live k by simp
    qed
  qed
qed

section \<open>Examples of reservations\<close>



text \<open>Two free seats; the taken seat of a grid of one seat listed twice; a free seat listed
  twice when the new id is 0; and a free seat listed twice when it is 1.\<close>

theorem reserve_variants_agree_witness:
  "wf_event (event1 2 2 0 [0, 0, 0, 0]) \<and> distinct [(1, 1), (2, 2) :: seat] \<and>
   reserve_event_p1 (event1 2 2 0 [0, 0, 0, 0]) [(1, 1), (2, 2)]
     = Some ((0, []), event1 2 2 1 [1, 0, 0, 1]) \<and>
   reserve_event_p2 (event1 2 2 0 [0, 0, 0, 0]) [(1, 1), (2, 2)]
     = Some ((0, []), event1 2 2 1 [1, 0, 0, 1]) \<and>
   wf_event (event1 1 1 1 [1]) \<and> data (event1 1 1 1 [1]) ! cell (event1 1 1 1 [1]) (1, 1) \<noteq> 0 \<and>
   reserve_event_p1 (event1 1 1 1 [1]) [(1, 1), (1, 1)]
     = Some ((1, [SeatAlreadyReserved]), event1 1 1 1 [1]) \<and>
   reserve_event_p2 (event1 1 1 1 [1]) [(1, 1), (1, 1)]
     = Some ((1, [SeatAlreadyReserved]), event1 1 1 1 [1]) \<and>
   wf_event (event1 1 1 4294967295 [0]) \<and> reservations (event1 1 1 4294967295 [0]) + 1 = 0 \<and>
   reserve_event_p1 (event1 1 1 4294967295 [0]) [(1, 1), (1, 1)]
     = Some ((0, []), event1 1 1 0 [0]) \<and>
   reserve_event_p2 (event1 1 1 4294967295 [0]) [(1, 1), (1, 1)]
     = Some ((0, []), event1 1 1 0 [0]) \<and>
   \<not> distinct [(1, 2), (1, 2) :: seat] \<and>
   reserve_event_p1 (event1 2 2 0 [0, 0, 0, 0]) [(1, 2), (1, 2)]
     = Some ((1, [SeatAlreadyReserved]), event1 2 2 0 [0, 0, 0, 0]) \<and>
   reserve_event_p2 (event1 2 2 0 [0, 0, 0, 0]) [(1, 2), (1, 2)]
     = Some ((0, []), event1 2 2 1 [0, 1, 0, 0])"
proof -
  let ?E = "event1 2 2 0 [0, 0, 0, 0]"
  let ?F = "event1 1 1 1 [1]"
  let ?G = "event1 1 1 4294967295 [0]"
  have h1: "wf_event ?E" and g1: "wf_event ?F" and k1: "wf_event ?G"
    by (simp_all add: wf_event_def example_defs)
  have d: "distinct [(1, 1), (2, 2) :: seat]" by simp
  have t: "data ?F ! cell ?F (1, 1) \<noteq> 0" by (simp add: cell_def example_defs)
  have w: "reservations ?G + 1 = 0" by (simp add: example_defs)
  have n: "\<not> distinct [(1, 2), (1, 2) :: seat]" by simp
  have f: "\<forall>s\<in>set [(1, 2), (1, 2)]. \<not> out_of_bounds ?E s \<and> data ?E ! cell ?E s = 0"
    by (simp add: cell_def example_defs)
  have v: "reservations ?E + 1 \<noteq> 0" by (simp add: example_defs)
  have rv: "reserved ?E [(1, 2), (1, 2)] = event1 2 2 1 [0, 1, 0, 0]"
    by (simp add: reserved_def mark_cells_def cell_def example_defs upt_rec)
  note t1 = reserve_variants_agree[OF h1, of "[(1, 1), (2, 2)]"]
    and t2 = reserve_variants_agree[OF g1, of "[(1, 1), (1, 1)]"]
    and t3 = reserve_variants_agree[OF k1, of "[(1, 1), (1, 1)]"]
    and t4 = reserve_variants_agree[OF h1, of "[(1, 2), (1, 2)]"]
  have p1: "reserve_event_p1 ?E [(1, 1), (2, 2)] = Some ((0, []), event1 2 2 1 [1, 0, 0, 1])"
    by (simp add: reserve_event_p1_def Let_def example_defs)
  have p2: "reserve_event_p2 ?E [(1, 1), (2, 2)] = Some ((0, []), event1 2 2 1 [1, 0, 0, 1])"
    by (simp add: reserve_event_p2_def Let_def example_defs upt_rec)
  have q1: "reserve_event_p1 ?F [(1, 1), (1, 1)] = Some ((1, [SeatAlreadyReserved]), ?F)"
    by (simp add: reserve_event_p1_def Let_def example_defs)
  have q2: "reserve_event_p2 ?F [(1, 1), (1, 1)] = Some ((1, [SeatAlreadyReserved]), ?F)"
    by (simp add: reserve_event_p2_def Let_def example_defs)
  have r1: "reserve_event_p1 ?G [(1, 1), (1, 1)] = Some ((0, []), event1 1 1 0 [0])"
    by (simp add: reserve_event_p1_def Let_def example_defs)
  have r2: "reserve_event_p2 ?G [(1, 1), (1, 1)] = Some ((0, []), event1 1 1 0 [0])"
    by (simp add: reserve_event_p2_def Let_def example_defs)
  have s1: "reserve_event_p1 ?E [(1, 2), (1, 2)] = Some ((1, [SeatAlreadyReserved]), ?E)"
    using t4 n f v by blast
  have s2: "reserve_event_p2 ?E [(1, 2), (1, 2)] = Some ((0, []), event1 2 2 1 [0, 1, 0, 0])"
    using t4 n f v unfolding rv[symmetric] by blast
  have a1: "\<exists>rc msgs1 msgs2 e'. reserve_event_p1 ?E [(1, 1), (2, 2)] = Some ((rc, msgs1), e') \<and>
      reserve_event_p2 ?E [(1, 1), (2, 2)] = Some ((rc, msgs2), e')"
    using t1 d by blast
  have a2: "\<exists>rc msgs1 msgs2 e'. reserve_event_p1 ?F [(1, 1), (1, 1)] = Some ((rc, msgs1), e') \<and>
      reserve_event_p2 ?F [(1, 1), (1, 1)] = Some ((rc, msgs2), e')"
    using t2 t by (simp del: distinct.simps)
  have a3: "\<exists>rc msgs1 msgs2 e'. reserve_event_p1 ?G [(1, 1), (1, 1)] = Some ((rc, msgs1), e') \<and>
      reserve_event_p2 ?G [(1, 1), (1, 1)] = Some ((rc, msgs2), e')"
    using t3 w by blast
  show ?thesis using a1 a2 a3 by (intro conjI h1 g1 k1 d t w n p1 p2 q1 q2 r1 r2 s1 s2)
qed

text \<open>The request that lists the free seat (1, 1) twice: Proj2 marks it, Proj1 meets its own
  mark, fails and rolls back.\<close>

theorem reserve_variants_agree_counterexample:
  "wf_event (event1 1 1 0 [0]) \<and>
   reserve_event_p2 (event1 1 1 0 [0]) [(1, 1), (1, 1)] = Some ((0, []), event1 1 1 1 [1]) \<and>
   reserve_event_p1 (event1 1 1 0 [0]) [(1, 1), (1, 1)]
     = Some ((1, [SeatAlreadyReserved]), event1 1 1 0 [0])"
  by (simp add: reserve_event_p1_def reserve_event_p2_def Let_def wf_event_def example_defs)

text \<open>The four failures of Proj2 on a grid whose seats (1, 1) and (2, 2) are taken.\<close>

theorem reserve_p2_failure_frame_witness:
  "ems_reserve_p2 ok_sys NULL 1 [(1, 1)] = Some ((1, [NotInitialized]), NULL) \<and>
   ems_reserve_p2 ok_sys (Live (registry [event1 2 2 1 [1, 0, 0, 1]])) 2 [(1, 2)]
     = Some ((1, [EventNotFound]), Live (registry [event1 2 2 1 [1, 0, 0, 1]])) \<and>
   ems_reserve_p2 ok_sys (Live (registry [event1 2 2 1 [1, 0, 0, 1]])) 1 [(1, 2), (3, 1)]
     = Some ((1, [InvalidSeat]), Live (registry [event1 2 2 1 [1, 0, 0, 1]])) \<and>
   ems_reserve_p2 ok_sys (Live (registry [event1 2 2 1 [1, 0, 0, 1]])) 1 [(1, 2), (2, 2)]
     = Some ((1, [SeatAlreadyReserved]), Live (registry [event1 2 2 1 [1, 0, 0, 1]]))"
proof -
  let ?st = "Live (registry [event1 2 2 1 [1, 0, 0, 1]])"
  have a: "ems_reserve_p2 ok_sys NULL 1 [(1, 1)] = Some ((1, [NotInitialized]), NULL)"
    by (simp add: ems_reserve_p2_def)
  have b: "ems_reserve_p2 ok_sys ?st 2 [(1, 2)] = Some ((1, [EventNotFound]), ?st)"
    by (simp add: ems_reserve_p2_def example_defs)
  have c: "ems_reserve_p2 ok_sys ?st 1 [(1, 2), (3, 1)] = Some ((1, [InvalidSeat]), ?st)"
    by (simp add: ems_reserve_p2_def reserve_event_p2_def Let_def example_defs)
  obtain st' where d: "ems_reserve_p2 ok_sys ?st 1 [(1, 2), (2, 2)] = Some ((1, [SeatAlreadyReserved]), st')"
    by (simp add: ems_reserve_p2_def reserve_event_p2_def Let_def example_defs upt_rec)
  have "st' = ?st" using reserve_p2_failure_frame[OF d] by simp
  then show ?thesis using a b c d by simp
qed

text \<open>
  Why the events are taken to be well-formed: \<^verbatim>\<open>ems_create\<close> multiplies the sizes as
  \<^verbatim>\<open>size_t\<close>, so for \<open>2\<^sup>3\<^sup>2\<close> rows and columns the product is 0 and the array has no
  cell. The seat (1, 1) is in bounds of that event and the scan has nothing to look at,
  so both variants store outside the array.
\<close>

lemma reserve_on_wrapped_grid:
  "new_event 1 4294967296 4294967296
     = \<lparr>id_ev = 1, rows = 4294967296, cols = 4294967296, reservations = 0, data = []\<rparr>"
  "\<not> wf_event (new_event 1 4294967296 4294967296)"
  "reserve_event_p2 (new_event 1 4294967296 4294967296) [(1, 1)] = None"
  "reserve_event_p1 (new_event 1 4294967296 4294967296) [(1, 1)] = None"
  by (simp_all add: new_event_def wf_event_def reserve_event_p2_def reserve_event_p1_def Let_def
      out_of_bounds_def seat_index_def)

lemma scan_grid_Nil: "scan_grid e [] cells = Some False"
  by (induction cells) simp_all

lemma reserve_event_p2_Nil:
  "reserve_event_p2 e [] = Some ((0, []), e\<lparr>reservations := reservations e + 1\<rparr>)"
  by (simp add: reserve_event_p2_def scan_grid_Nil Let_def)

lemma reserve_event_p1_Nil:
  "reserve_event_p1 e [] = Some ((0, []), e\<lparr>reservations := reservations e + 1\<rparr>)"
  by (simp add: reserve_event_p1_def Let_def)

text \<open>
  Claim C8 (a reservation of zero seats) fails on the code. \<^verbatim>\<open>ems_reserve\<close> skips its
  loops when \<^verbatim>\<open>num_seats\<close> is 0: on the event that \<^verbatim>\<open>CREATE 1 1 1\<close> makes it returns
  0 and moves the counter from 0 to 1, in both variants. In Proj1 the command loop
  prints that the command is invalid and calls \<^verbatim>\<open>ems_reserve\<close> all the same.
\<close>

theorem reserve_zero_seats_accepted:
  "cmd_reserve_p1 (Some [event1 1 1 0 [0]]) 1 [] = Some ([MalformedCommand], Some [event1 1 1 1 [0]]) \<and>
   ems_reserve_p1 (Some [event1 1 1 0 [0]]) 1 [] = Some ((0, []), Some [event1 1 1 1 [0]]) \<and>
   ems_reserve_p2 ok_sys (Live (registry [event1 1 1 0 [0]])) 1 []
     = Some ((0, []), Live (registry [event1 1 1 1 [0]]))"
  by (simp add: cmd_reserve_p1_def ems_reserve_p1_def ems_reserve_p2_def reserve_event_p1_Nil
      reserve_event_p2_Nil example_defs)

section \<open>Sequences of reservations\<close>

lemma wf_event_new:
  assumes "unat r * unat c < 2 ^ 64"
  shows "wf_event (new_event i r c)" and "data (new_event i r c) = replicate (unat r * unat c) 0"
  using assms by (simp_all add: wf_event_def new_event_def unat_mult_lem[THEN iffD1])

lemma wf_event_reserved: "wf_event e \<Longrightarrow> wf_event (reserved e ss)"
  by (simp add: wf_event_def reserved_def)

lemma reserve_event_p1_step:
  assumes "wf_event e"
  shows "\<exists>rc msgs e'. reserve_event_p1 e ss = Some ((rc, msgs), e') \<and> wf_event e' \<and>
           (rc \<noteq> 0 \<and> e' = e \<or> rc = 0 \<and> reservations e' = reservations e + 1)"
  using reserve_event_p1_outcome[OF assms, of ss] wf_event_reserved[OF assms, of ss] assms
  by (auto simp: reserved_def)

lemma reserve_event_p2_step:
  assumes "wf_event e"
  shows "\<exists>rc msgs e'. reserve_event_p2 e ss = Some ((rc, msgs), e') \<and> wf_event e' \<and>
           (rc \<noteq> 0 \<and> e' = e \<or> rc = 0 \<and> reservations e' = reservations e + 1)"
  using reserve_event_p2_outcome[OF assms, of ss] wf_event_reserved[OF assms, of ss] assms
  by (auto simp: reserved_def)

lemma upt_shift: "[1..<Suc (Suc m)] = 1 # map Suc [1..<Suc m]"
  by (simp add: upt_conv_Cons map_Suc_upt del: upt_Suc)

text \<open>The ids a sequence of calls hands out are the successors of the counter, in order,
  whatever the variant.\<close>

lemma reserve_all_consecutive:
  assumes step: "\<And>e ss. wf_event e \<Longrightarrow>
      \<exists>rc msgs e'. f e ss = Some ((rc, msgs), e') \<and> wf_event e' \<and>
        (rc \<noteq> 0 \<and> e' = e \<or> rc = 0 \<and> reservations e' = reservations e + 1)"
    and wf: "wf_event e"
  shows "\<exists>ids e'. reserve_all f e reqs = Some (ids, e') \<and> wf_event e' \<and>
           length ids \<le> length reqs \<and>
           ids = map (\<lambda>j. reservations e + of_nat j) [1..<Suc (length ids)] \<and>
           reservations e' = reservations e + of_nat (length ids)"
  using wf
proof (induction reqs arbitrary: e)
  case Nil
  then show ?case by simp
next
  case (Cons r reqs)
  obtain rc msgs e1 where f: "f e r = Some ((rc, msgs), e1)" and wf1: "wf_event e1"
    and c: "rc \<noteq> 0 \<and> e1 = e \<or> rc = 0 \<and> reservations e1 = reservations e + 1"
    using step[OF Cons.prems] by blast
  obtain ids e' where ra: "reserve_all f e1 reqs = Some (ids, e')" and wf': "wf_event e'"
    and len: "length ids \<le> length reqs"
    and ids: "ids = map (\<lambda>j. reservations e1 + of_nat j) [1..<Suc (length ids)]"
    and cnt: "reservations e' = reservations e1 + of_nat (length ids)"
    using Cons.IH[OF wf1] by blast
  show ?case
  proof (cases "rc = 0")
    case False
    then have "reserve_all f e (r # reqs) = Some (ids, e')" using f ra by simp
    moreover have "e1 = e" using c False by simp
    ultimately show ?thesis using wf' len ids cnt by auto
  next
    case True
    then have e1: "reservations e1 = reservations e + 1" using c by simp
    have ra': "reserve_all f e (r # reqs) = Some (reservations e1 # ids, e')"
      using f ra True by simp
    have "reservations e1 # ids
        = map (\<lambda>j. reservations e + of_nat j) [1..<Suc (length (reservations e1 # ids))]"
    proof -
      have "map (\<lambda>j. reservations e + of_nat j) [1..<Suc (Suc (length ids))]
          = (reservations e + 1) # map (\<lambda>j. reservations e + 1 + of_nat j) [1..<Suc (length ids)]"
        unfolding upt_shift by (simp add: o_def add.assoc)
      then show ?thesis using ids e1 by simp
    qed
    moreover have "reservations e' = reservations e + of_nat (length (reservations e1 # ids))"
      using cnt e1 by simp
    ultimately show ?thesis using ra' wf' len by force
  qed
qed

lemma unat_counter_plus:
  fixes c :: u32
  assumes "unat c + j < 2 ^ 32"
  shows "unat (c + of_nat j) = unat c + j"
proof -
  have "unat (of_nat j :: u32) = j" using assms by (simp add: unat_of_nat)
  then show ?thesis using assms by (simp add: unat_add_lem[THEN iffD1])
qed

text \<open>Below the wrap-around the successors of the counter increase and are not 0.\<close>

lemma successors_increasing:
  fixes c :: u32
  assumes "unat c + m < 2 ^ 32"
  shows "sorted_wrt (<) (map (\<lambda>j. c + of_nat j) [1..<Suc m])"
    and "distinct (map (\<lambda>j. c + of_nat j) [1..<Suc m])"
    and "\<forall>i\<in>set (map (\<lambda>j. c + of_nat j) [1..<Suc m]). i \<noteq> 0 \<and> c < i"
proof -
  have u: "unat (c + of_nat j) = unat c + j" if "j \<le> m" for j
    using that assms by (intro unat_counter_plus) simp
  show s: "sorted_wrt (<) (map (\<lambda>j. c + of_nat j) [1..<Suc m])"
  proof (rule sorted_wrt_map_mono[OF sorted_wrt_upt])
    fix x y assume "x \<in> set [1..<Suc m]" "y \<in> set [1..<Suc m]" "x < y"
    then have "x \<le> m" "y \<le> m" "x < y" by auto
    then show "c + of_nat x < c + of_nat y"
      using u[of x] u[of y] by (simp add: word_less_nat_alt)
  qed
  then show "distinct (map (\<lambda>j. c + of_nat j) [1..<Suc m])"
    using strict_sorted_iff by blast
  show "\<forall>i\<in>set (map (\<lambda>j. c + of_nat j) [1..<Suc m]). i \<noteq> 0 \<and> c < i"
  proof
    fix i assume "i \<in> set (map (\<lambda>j. c + of_nat j) [1..<Suc m])"
    then obtain j where j: "1 \<le> j" "j \<le> m" "i = c + of_nat j" by auto
    have "unat i = unat c + j" using u[OF j(2)] j(3) by simp
    then have "unat c < unat i" using j(1) by simp
    then show "i \<noteq> 0 \<and> c < i" by (auto simp: word_less_nat_alt)
  qed
qed

lemma reserve_all_ids:
  assumes step: "\<And>e ss. wf_event e \<Longrightarrow>
      \<exists>rc msgs e'. f e ss = Some ((rc, msgs), e') \<and> wf_event e' \<and>
        (rc \<noteq> 0 \<and> e' = e \<or> rc = 0 \<and> reservations e' = reservations e + 1)"
    and wf: "wf_event e"
  shows "\<exists>ids e'. reserve_all f e reqs = Some (ids, e') \<and>
           ids = map (\<lambda>j. reservations e + of_nat j) [1..<Suc (length ids)] \<and>
           reservations e' = reservations e + of_nat (length ids) \<and>
           (unat (reservations e) + length ids < 2 ^ 32 \<longrightarrow>
              sorted_wrt (<) ids \<and> distinct ids \<and> (\<forall>i\<in>set ids. i \<noteq> 0 \<and> reservations e < i))"
proof -
  obtain ids e' where ra: "reserve_all f e reqs = Some (ids, e')"
    and ids: "ids = map (\<lambda>j. reservations e + of_nat j) [1..<Suc (length ids)]"
    and cnt: "reservations e' = reservations e + of_nat (length ids)"
    using reserve_all_consecutive[of f, OF step wf] by blast
  have "sorted_wrt (<) ids \<and> distinct ids \<and> (\<forall>i\<in>set ids. i \<noteq> 0 \<and> reservations e < i)"
    if b: "unat (reservations e) + length ids < 2 ^ 32"
  proof -
    note s = successors_increasing[OF b]
    have "sorted_wrt (<) ids" "distinct ids" "\<forall>i\<in>set ids. i \<noteq> 0 \<and> reservations e < i"
      using s ids by metis+
    then show ?thesis by simp
  qed
  then show ?thesis using ra ids cnt by blast
qed

text \<open>
  Claim C3, as amended (the reservation ids). Let a sequence of \<^verbatim>\<open>ems_reserve\<close> calls be
  made on a well-formed event. Then, in both variants, every call returns, each call
  that returns 0 is handed the next value of the 32-bit counter, and the ids handed out
  are the successors of the counter at the start, in order, one for each call that
  succeeds; a call of Proj1 that fails has put the counter back. As long as the counter
  does not wrap around, that is, the counter at the start plus the number of calls that
  succeed is below \<open>2\<^sup>3\<^sup>2\<close>, the ids are strictly increasing, pairwise distinct, never 0
  and above the counter at the start.
\<close>

theorem reservation_ids_increasing:
  assumes "wf_event e"
  shows "(\<exists>ids e'. reserve_all reserve_event_p1 e reqs = Some (ids, e') \<and>
            ids = map (\<lambda>j. reservations e + of_nat j) [1..<Suc (length ids)] \<and>
            reservations e' = reservations e + of_nat (length ids) \<and>
            (unat (reservations e) + length ids < 2 ^ 32 \<longrightarrow>
               sorted_wrt (<) ids \<and> distinct ids \<and>
               (\<forall>i\<in>set ids. i \<noteq> 0 \<and> reservations e < i))) \<and>
         (\<exists>ids e'. reserve_all reserve_event_p2 e reqs = Some (ids, e') \<and>
            ids = map (\<lambda>j. reservations e + of_nat j) [1..<Suc (length ids)] \<and>
            reservations e' = reservations e + of_nat (length ids) \<and>
            (unat (reservations e) + length ids < 2 ^ 32 \<longrightarrow>
               sorted_wrt (<) ids \<and> distinct ids \<and>
               (\<forall>i\<in>set ids. i \<noteq> 0 \<and> reservations e < i)))"
  using reserve_all_ids[of reserve_event_p1, OF reserve_event_p1_step assms]
    reserve_all_ids[of reserve_event_p2, OF reserve_event_p2_step assms]
  by (rule conjI)

lemma reserve_all_empty:
  assumes nil: "\<And>e. f e [] = Some ((0, []), e\<lparr>reservations := reservations e + 1\<rparr>)"
  shows "reserve_all f e (replicate n [])
    = Some (map (\<lambda>j. reservations e + of_nat j) [1..<Suc n],
            e\<lparr>reservations := reservations e + of_nat n\<rparr>)"
proof (induction n arbitrary: e)
  case 0
  then show ?case by simp
next
  case (Suc n)
  have "map (\<lambda>j. reservations e + of_nat j) [1..<Suc (Suc n)]
      = (reservations e + 1) # map (\<lambda>j. reservations e + 1 + of_nat j) [1..<Suc n]"
    unfolding upt_shift by (simp add: o_def add.assoc)
  then show ?case
    using Suc.IH[of "e\<lparr>reservations := reservations e + 1\<rparr>"] nil[of e]
    by (simp add: add.assoc del: upt_Suc)
qed

lemma last_issued:
  "n > 0 \<Longrightarrow> last (map (\<lambda>j. c + of_nat j) [1..<Suc n]) = c + of_nat n"
  by (simp add: last_map)

text \<open>
  Three requests on a free grid of 2 by 2, the second for a seat taken by the first; and
  three requests with the counter at \<open>2\<^sup>3\<^sup>2 - 2\<close>, of which the second succeeds and is
  handed the last id before the wrap.
\<close>

theorem reservation_ids_increasing_witness:
  "wf_event (event1 2 2 0 [0, 0, 0, 0]) \<and>
   reserve_all reserve_event_p1 (event1 2 2 0 [0, 0, 0, 0]) [[(1, 1)], [(1, 1)], [(2, 2)]]
     = Some ([1, 2], event1 2 2 2 [1, 0, 0, 2]) \<and>
   reserve_all reserve_event_p2 (event1 2 2 0 [0, 0, 0, 0]) [[(1, 1)], [(1, 1)], [(2, 2)]]
     = Some ([1, 2], event1 2 2 2 [1, 0, 0, 2]) \<and>
   unat (reservations (event1 2 2 0 [0, 0, 0, 0])) + length [1, 2 :: u32] < 2 ^ 32 \<and>
   sorted_wrt (<) [1, 2 :: u32] \<and> distinct [1, 2 :: u32] \<and>
   wf_event (event1 1 1 4294967294 [0]) \<and>
   reserve_all reserve_event_p1 (event1 1 1 4294967294 [0]) [[(2, 1)], [(1, 1)], [(1, 1)]]
     = Some ([4294967295], event1 1 1 4294967295 [4294967295]) \<and>
   reserve_all reserve_event_p2 (event1 1 1 4294967294 [0]) [[(2, 1)], [(1, 1)], [(1, 1)]]
     = Some ([4294967295], event1 1 1 4294967295 [4294967295]) \<and>
   unat (reservations (event1 1 1 4294967294 [0])) + length [4294967295 :: u32] < 2 ^ 32 \<and>
   (4294967295 :: u32) \<noteq> 0 \<and> reservations (event1 1 1 4294967294 [0]) < 4294967295"
proof -
  let ?E = "event1 2 2 0 [0, 0, 0, 0]"
  let ?reqs = "[[(1, 1)], [(1, 1)], [(2, 2 :: size_t)]] :: seat list list"
  let ?F = "event1 1 1 4294967294 [0]"
  let ?rs = "[[(2, 1)], [(1, 1)], [(1, 1 :: size_t)]] :: seat list list"
  have h: "wf_event ?E" and g: "wf_event ?F" by (simp_all add: wf_event_def example_defs)
  note t1 = reservation_ids_increasing[OF h, of ?reqs]
    and t2 = reservation_ids_increasing[OF g, of ?rs]
  have p1: "reserve_all reserve_event_p1 ?E ?reqs = Some ([1, 2], event1 2 2 2 [1, 0, 0, 2])"
    by (simp add: reserve_event_p1_def Let_def example_defs)
  have p2: "reserve_all reserve_event_p2 ?E ?reqs = Some ([1, 2], event1 2 2 2 [1, 0, 0, 2])"
    by (simp add: reserve_event_p2_def Let_def example_defs upt_rec)
  have q1: "reserve_all reserve_event_p1 ?F ?rs
      = Some ([4294967295], event1 1 1 4294967295 [4294967295])"
    by (simp add: reserve_event_p1_def Let_def example_defs)
  have q2: "reserve_all reserve_event_p2 ?F ?rs
      = Some ([4294967295], event1 1 1 4294967295 [4294967295])"
    by (simp add: reserve_event_p2_def Let_def example_defs)
  have b: "unat (reservations ?E) + length [1, 2 :: u32] < 2 ^ 32"
    "unat (reservations ?F) + length [4294967295 :: u32] < 2 ^ 32"
    by (simp_all add: example_defs)
  have c: "reservations ?F < 4294967295" by (simp add: example_defs)
  show ?thesis using t1 t2 p1 p2 q1 q2 h g b c by simp
qed

lemma reserve_event_p1_fits:
  assumes wf: "wf_event e" and dist: "distinct ss"
    and fits: "\<forall>s\<in>set ss. \<not> out_of_bounds e s \<and> data e ! cell e s = 0"
  shows "reserve_event_p1 e ss = Some ((0, []), reserved e ss)"
proof -
  obtain i msgs d where
    cl: "claim_loop e (reservations e + 1) ss (data e) = Some (i, msgs, d)" and
    r: "reserve_event_p1 e ss =
       Some (if i < length ss then ((1, msgs), e) else ((0, []), reserved e ss))"
    using reserve_event_p1_eq[OF wf] by blast
  have "\<not> i < length ss"
  proof
    assume i: "i < length ss"
    have "out_of_bounds e (ss ! i) \<or> data e ! cell e (ss ! i) \<noteq> 0"
      using claim_loop_stop_distinct[OF wf _ cl i dist] by simp
    moreover have "ss ! i \<in> set ss" using i by simp
    ultimately show False using fits by blast
  qed
  then show ?thesis using r by simp
qed

lemma reserve_event_p2_fits:
  assumes wf: "wf_event e"
    and fits: "\<forall>s\<in>set ss. \<not> out_of_bounds e s \<and> data e ! cell e s = 0"
  shows "reserve_event_p2 e ss = Some ((0, []), reserved e ss)"
  unfolding reserve_event_p2_eq[OF wf] using fits by auto

text \<open>Requests for free seats, one seat each and no seat twice, all succeed.\<close>

lemma reserve_all_singles:
  assumes single: "\<And>e s. wf_event e \<Longrightarrow> \<not> out_of_bounds e s \<Longrightarrow> data e ! cell e s = 0 \<Longrightarrow>
      f e [s] = Some ((0, []), reserved e [s])"
  shows "wf_event e \<Longrightarrow> distinct ss \<Longrightarrow>
     \<forall>s\<in>set ss. \<not> out_of_bounds e s \<and> data e ! cell e s = 0 \<Longrightarrow>
     \<exists>e'. reserve_all f e (map (\<lambda>s. [s]) ss)
       = Some (map (\<lambda>j. reservations e + of_nat j) [1..<Suc (length ss)], e')"
proof (induction ss arbitrary: e)
  case Nil
  then show ?case by simp
next
  case (Cons s ss)
  let ?e1 = "reserved e [s]"
  have s: "\<not> out_of_bounds e s" "data e ! cell e s = 0" using Cons.prems(3) by simp_all
  have f: "f e [s] = Some ((0, []), ?e1)" using single[OF Cons.prems(1) s] .
  have wf1: "wf_event ?e1" using Cons.prems(1) by (rule wf_event_reserved)
  have fits1: "\<forall>t\<in>set ss. \<not> out_of_bounds ?e1 t \<and> data ?e1 ! cell ?e1 t = 0"
  proof
    fix t assume t: "t \<in> set ss"
    then have tb: "\<not> out_of_bounds e t" and tz: "data e ! cell e t = 0"
      using Cons.prems(3) by simp_all
    have "t \<noteq> s" using t Cons.prems(2) by auto
    then have "cell e t \<noteq> cell e s" using cell_inj[OF Cons.prems(1) tb s(1)] by blast
    then show "\<not> out_of_bounds ?e1 t \<and> data ?e1 ! cell ?e1 t = 0"
      using tb tz cell_less[OF Cons.prems(1) tb] by (simp add: reserved_def)
  qed
  obtain e' where ra: "reserve_all f ?e1 (map (\<lambda>s. [s]) ss)
      = Some (map (\<lambda>j. reservations ?e1 + of_nat j) [1..<Suc (length ss)], e')"
    using Cons.IH[OF wf1 _ fits1] Cons.prems(2) by auto
  have r1: "reservations ?e1 = reservations e + 1" by (simp add: reserved_def)
  have "map (\<lambda>j. reservations e + of_nat j) [1..<Suc (Suc (length ss))]
      = (reservations e + 1) # map (\<lambda>j. reservations e + 1 + of_nat j) [1..<Suc (length ss)]"
    unfolding upt_shift by (simp add: o_def add.assoc)
  then show ?case using f ra r1 by (simp del: upt_Suc)
qed

lemma row_requests_all:
  assumes single: "\<And>e s. wf_event e \<Longrightarrow> \<not> out_of_bounds e s \<Longrightarrow> data e ! cell e s = 0 \<Longrightarrow>
      f e [s] = Some ((0, []), reserved e [s])"
    and n: "n \<le> unat c"
  shows "\<exists>e'. reserve_all f (new_event i 1 c) (row_requests n)
       = Some (map (\<lambda>j. of_nat j) [1..<Suc n], e')"
proof -
  let ?e = "new_event i 1 c"
  let ?ss = "map (\<lambda>j. (1, of_nat j) :: seat) [1..<Suc n]"
  have lt: "unat (1 :: size_t) * unat c < 2 ^ 64" using unsigned_less[of c] by simp
  have wf: "wf_event ?e" and d: "data ?e = replicate (unat (1 :: size_t) * unat c) 0"
    using wf_event_new[OF lt] by simp_all
  have u: "unat (of_nat j :: size_t) = j" if "j \<le> n" for j
    using that n by (intro unat_of_nat_le[of j c]) simp
  have dist: "distinct ?ss"
  proof -
    have "inj_on (\<lambda>j. (1 :: size_t, of_nat j :: size_t)) (set [1..<Suc n])"
    proof (rule inj_onI)
      fix a b assume "a \<in> set [1..<Suc n]" "b \<in> set [1..<Suc n]"
        "(1 :: size_t, of_nat a :: size_t) = (1, of_nat b)"
      then have "a \<le> n" "b \<le> n" "unat (of_nat a :: size_t) = unat (of_nat b :: size_t)" by auto
      then show "a = b" using u by simp
    qed
    then show ?thesis by (simp add: distinct_map del: upt_Suc)
  qed
  have fits: "\<forall>s\<in>set ?ss. \<not> out_of_bounds ?e s \<and> data ?e ! cell ?e s = 0"
  proof
    fix s assume "s \<in> set ?ss"
    then obtain j where j: "1 \<le> j" "j \<le> n" "s = (1, of_nat j)" by auto
    have b: "\<not> out_of_bounds ?e s"
      using j n u[OF j(2)]
      by (simp add: out_of_bounds_def new_event_def word_le_nat_alt word_less_nat_alt not_le not_less)
    then have "cell ?e s < length (data ?e)" using cell_less[OF wf] by simp
    then have "data ?e ! cell ?e s = 0" unfolding d by simp
    then show "\<not> out_of_bounds ?e s \<and> data ?e ! cell ?e s = 0" using b by simp
  qed
  obtain e' where "reserve_all f ?e (map (\<lambda>s. [s]) ?ss)
      = Some (map (\<lambda>j. reservations ?e + of_nat j) [1..<Suc (length ?ss)], e')"
    using reserve_all_singles[of f, OF single wf dist fits] by blast
  moreover have "map (\<lambda>s. [s]) ?ss = row_requests n"
    by (simp add: row_requests_def o_def del: upt_Suc)
  moreover have "reservations ?e = 0" by (simp add: new_event_def)
  ultimately show ?thesis by (simp del: upt_Suc)
qed

lemma reserve_event_p2_single:
  "wf_event e \<Longrightarrow> \<not> out_of_bounds e s \<Longrightarrow> data e ! cell e s = 0 \<Longrightarrow>
     reserve_event_p2 e [s] = Some ((0, []), reserved e [s])"
  by (rule reserve_event_p2_fits) simp_all

lemma reserve_event_p1_single:
  "wf_event e \<Longrightarrow> \<not> out_of_bounds e s \<Longrightarrow> data e ! cell e s = 0 \<Longrightarrow>
     reserve_event_p1 e [s] = Some ((0, []), reserved e [s])"
  by (rule reserve_event_p1_fits) simp_all

lemma last_successor: "last (map (\<lambda>j. of_nat j :: u32) [1..<Suc 4294967296]) = 0"
  using last_issued[of 4294967296 "0 :: u32"] by (simp del: upt_Suc)

lemma row_requests_wrap:
  assumes single: "\<And>e s. wf_event e \<Longrightarrow> \<not> out_of_bounds e s \<Longrightarrow> data e ! cell e s = 0 \<Longrightarrow>
      f e [s] = Some ((0, []), reserved e [s])"
  shows "map_option (length \<circ> fst)
        (reserve_all f (new_event 1 1 4294967296) (row_requests 4294967296)) = Some 4294967296"
    and "map_option (last \<circ> fst)
        (reserve_all f (new_event 1 1 4294967296) (row_requests 4294967296)) = Some 0"
proof -
  have "(4294967296 :: nat) \<le> unat (4294967296 :: size_t)" by simp
  then obtain e' where r: "reserve_all f (new_event 1 1 4294967296) (row_requests 4294967296)
      = Some (map (\<lambda>j. of_nat j) [1..<Suc 4294967296], e')"
    using row_requests_all[of f 4294967296 4294967296 1, OF single] by blast
  show "map_option (length \<circ> fst)
      (reserve_all f (new_event 1 1 4294967296) (row_requests 4294967296)) = Some 4294967296"
    unfolding r by (simp del: upt_Suc)
  show "map_option (last \<circ> fst)
      (reserve_all f (new_event 1 1 4294967296) (row_requests 4294967296)) = Some 0"
    unfolding r using last_successor by (simp del: upt_Suc)
qed

lemma empty_requests_wrap:
  assumes nil: "\<And>e. f e [] = Some ((0, []), e\<lparr>reservations := reservations e + 1\<rparr>)"
  shows "map_option (length \<circ> fst) (reserve_all f (event1 1 1 0 [0]) (replicate 4294967296 []))
        = Some 4294967296"
    and "map_option (last \<circ> fst) (reserve_all f (event1 1 1 0 [0]) (replicate 4294967296 []))
        = Some 0"
proof -
  have z: "reservations (event1 1 1 0 [0]) + of_nat 4294967296 = 0"
    by (simp add: example_defs)
  show "map_option (length \<circ> fst) (reserve_all f (event1 1 1 0 [0]) (replicate 4294967296 []))
        = Some 4294967296"
    unfolding reserve_all_empty[of f, OF nil] by (simp del: upt_Suc)
  show "map_option (last \<circ> fst) (reserve_all f (event1 1 1 0 [0]) (replicate 4294967296 []))
        = Some 0"
    unfolding reserve_all_empty[of f, OF nil]
    using last_issued[of 4294967296 "reservations (event1 1 1 0 [0])"] z
    by (simp del: upt_Suc)
qed

text \<open>
  The counter wraps around.
  \<^item> On the event that \<^verbatim>\<open>CREATE 1 1 4294967296\<close> makes, a row of \<open>2\<^sup>3\<^sup>2\<close> seats, the
    requests for its seats one after the other all return 0, and the last of them is
    handed the id 0.
  \<^item> On the event that \<^verbatim>\<open>CREATE 1 1 1\<close> makes, \<open>2\<^sup>3\<^sup>2\<close> requests of zero seats all return
    0 and the last is handed the id 0.
  \<^item> With the counter at its end a request for the free seat returns 0 with the id 0,
    which leaves the seat free.
\<close>

theorem reservation_ids_increasing_counterexample:
  "wf_event (new_event 1 1 4294967296) \<and>
   map_option (length \<circ> fst)
     (reserve_all reserve_event_p2 (new_event 1 1 4294967296) (row_requests 4294967296))
     = Some 4294967296 \<and>
   map_option (last \<circ> fst)
     (reserve_all reserve_event_p2 (new_event 1 1 4294967296) (row_requests 4294967296))
     = Some 0 \<and>
   map_option (length \<circ> fst)
     (reserve_all reserve_event_p1 (new_event 1 1 4294967296) (row_requests 4294967296))
     = Some 4294967296 \<and>
   map_option (last \<circ> fst)
     (reserve_all reserve_event_p1 (new_event 1 1 4294967296) (row_requests 4294967296))
     = Some 0 \<and>
   map_option (length \<circ> fst)
     (reserve_all reserve_event_p2 (event1 1 1 0 [0]) (replicate 4294967296 [])) = Some 4294967296 \<and>
   map_option (last \<circ> fst)
     (reserve_all reserve_event_p2 (event1 1 1 0 [0]) (replicate 4294967296 [])) = Some 0 \<and>
   map_option (length \<circ> fst)
     (reserve_all reserve_event_p1 (event1 1 1 0 [0]) (replicate 4294967296 [])) = Some 4294967296 \<and>
   map_option (last \<circ> fst)
     (reserve_all reserve_event_p1 (event1 1 1 0 [0]) (replicate 4294967296 [])) = Some 0 \<and>
   reserve_event_p2 (event1 1 1 4294967295 [0]) [(1, 1)] = Some ((0, []), event1 1 1 0 [0]) \<and>
   reserve_event_p1 (event1 1 1 4294967295 [0]) [(1, 1)] = Some ((0, []), event1 1 1 0 [0])"
proof -
  have w: "wf_event (new_event 1 1 4294967296)" by (rule wf_event_new(1)) simp
  note r2 = row_requests_wrap[of reserve_event_p2, OF reserve_event_p2_single]
    and r1 = row_requests_wrap[of reserve_event_p1, OF reserve_event_p1_single]
    and z2 = empty_requests_wrap[of reserve_event_p2, OF reserve_event_p2_Nil]
    and z1 = empty_requests_wrap[of reserve_event_p1, OF reserve_event_p1_Nil]
  have c: "reserve_event_p2 (event1 1 1 4294967295 [0]) [(1, 1)] = Some ((0, []), event1 1 1 0 [0])"
    by (simp add: reserve_event_p2_def Let_def example_defs)
  have d: "reserve_event_p1 (event1 1 1 4294967295 [0]) [(1, 1)] = Some ((0, []), event1 1 1 0 [0])"
    by (simp add: reserve_event_p1_def Let_def example_defs)
  show ?thesis by (intro conjI w r2 r1 z2 z1 c d)
qed

section \<open>Creating events, starting and ending\<close>

text \<open>The loop of Proj1 that clears the cells stays inside the block exactly if every index
  is below the number of cells that the block holds.\<close>

lemma init_loop_p1_inside:
  "mutex_init_ok sys \<Longrightarrow> \<forall>i\<in>set xs. i < capacity \<Longrightarrow> init_loop_p1 sys capacity xs = Some True"
  by (induction xs) simp_all

lemma init_loop_p1_outside:
  "mutex_init_ok sys \<Longrightarrow> \<exists>i\<in>set xs. \<not> i < capacity \<Longrightarrow> init_loop_p1 sys capacity xs = None"
  by (induction xs) auto

lemma init_loop_p1_beyond:
  assumes "mutex_init_ok sys" and "capacity < n"
  shows "init_loop_p1 sys capacity [0..<n] = None"
proof -
  have "capacity \<in> set [0..<n]" using assms(2) by simp
  then have "\<exists>i\<in>set [0..<n]. \<not> i < capacity" by blast
  then show ?thesis using assms(1) by (rule init_loop_p1_outside[rotated])
qed

lemma block_capacity:
  fixes s r c :: size_t
  assumes "s \<noteq> 0" and "unat s * (unat r * unat c) < 2 ^ 64"
  shows "unat (s * r * c) div unat s = unat (r * c)"
proof -
  have s: "0 < unat s" using assms(1) by (simp add: unat_gt_0)
  have "unat r * unat c \<le> unat s * (unat r * unat c)" using s by simp
  then have rc: "unat r * unat c < 2 ^ 64" using assms(2) by linarith
  have a: "unat (r * c) = unat r * unat c"
    using rc unat_mult_lem[of r c] by simp
  have "unat s * unat (r * c) < 2 ^ 64" using assms(2) a by simp
  then have "unat (s * (r * c)) = unat s * unat (r * c)"
    using unat_mult_lem[of s "r * c"] by simp
  then have "unat (s * r * c) = unat s * unat (r * c)" by (simp add: mult.assoc)
  then show ?thesis using s by simp
qed

lemma ems_create_p1_duplicate:
  "\<exists>e\<in>set es. id_ev e = i \<Longrightarrow>
     ems_create_p1 sys (Some es) i r c = Some ((1, [DuplicateEvent]), Some es)"
  using get_event_None_iff[of es i] by (auto simp: ems_create_p1_def)

lemma ems_create_p2_duplicate:
  "\<exists>e\<in>set (events l). id_ev e = i \<Longrightarrow> rwlock_ok sys \<Longrightarrow>
     ems_create_p2 sys (Live l) i r c = Some ((1, [DuplicateEvent]), Live l)"
  using get_event_None_iff[of "events l" i] by (auto simp: ems_create_p2_def)

lemma ems_create_p1_new:
  assumes "\<forall>e\<in>set es. id_ev e \<noteq> i"
    and "event_alloc_ok sys" "mutex_init_ok sys" "data_alloc_ok sys" "append_ok sys"
    and "sizeof_Data sys \<noteq> 0" and "unat (sizeof_Data sys) * (unat r * unat c) < 2 ^ 64"
  shows "ems_create_p1 sys (Some es) i r c = Some ((0, []), Some (es @ [new_event i r c]))"
proof -
  have g: "get_event es i = None" using assms(1) get_event_None_iff[of es i] by simp
  have "init_loop_p1 sys (unat (sizeof_Data sys * r * c) div unat (sizeof_Data sys))
          [0..<unat (r * c)] = Some True"
    using assms(3) block_capacity[OF assms(6,7)] by (intro init_loop_p1_inside) simp_all
  then show ?thesis
    using assms(2,4,5) g by (simp add: ems_create_p1_def new_event_def append_to_list_def)
qed

lemma ems_create_p2_new:
  assumes "\<forall>e\<in>set (events l). id_ev e \<noteq> i" and "rwlock_ok sys"
    and "event_alloc_ok sys" "mutex_init_ok sys" "data_alloc_ok sys" "append_ok sys"
  shows "ems_create_p2 sys (Live l) i r c
    = Some ((0, []), Live \<lparr>events = events l @ [new_event i r c], num_events = num_events l + 1\<rparr>)"
  using assms get_event_None_iff[of "events l" i]
  by (simp add: ems_create_p2_def new_event_def append_to_list_def)

text \<open>A call of \<^verbatim>\<open>ems_create\<close> that returns 1, for whatever reason, leaves the list as it was.\<close>

lemma ems_create_p1_failure_frame:
  "ems_create_p1 sys st i r c = Some ((rc, msgs), st') \<Longrightarrow> rc \<noteq> 0 \<Longrightarrow> st' = st"
  by (auto simp: ems_create_p1_def split: option.splits if_splits bool.splits)

lemma ems_create_p2_failure_frame:
  "ems_create_p2 sys st i r c = Some ((rc, msgs), st') \<Longrightarrow> rc \<noteq> 0 \<Longrightarrow> st' = st"
  by (auto simp: ems_create_p2_def split: ptr.splits if_splits)

text \<open>
  What \<^verbatim>\<open>ems_create\<close> does when the sizes fit. Let the list hold the events \<open>es\<close>.
  \<^item> If an event of \<open>es\<close> has the id, \<^verbatim>\<open>ems_create\<close> returns 1 with the message for
    \<open>DuplicateEvent\<close> and leaves the list as it is (in Proj2 if the lock is taken).
  \<^item> If none has and the locks and allocations succeed, Proj2 returns 0 and the list is
    \<open>es\<close> with the new event appended at its end, so that the order of the list is
    the order of creation: the counter of the new event is 0, every cell of its grid is
    0, and the list is longer by 1. Proj1 does the same if the number of bytes of the
    grid, \<^verbatim>\<open>sizeof(struct Data) * num_rows * num_cols\<close>, is below \<open>2\<^sup>6\<^sup>4\<close>.
\<close>

lemma ems_create_rejects_or_appends:
  assumes "events l = es"
  shows "((\<exists>e\<in>set es. id_ev e = i) \<longrightarrow>
            ems_create_p1 sys (Some es) i r c = Some ((1, [DuplicateEvent]), Some es) \<and>
            (rwlock_ok sys \<longrightarrow>
               ems_create_p2 sys (Live l) i r c = Some ((1, [DuplicateEvent]), Live l))) \<and>
         ((\<forall>e\<in>set es. id_ev e \<noteq> i) \<and> rwlock_ok sys \<and> event_alloc_ok sys \<and>
          mutex_init_ok sys \<and> data_alloc_ok sys \<and> append_ok sys \<longrightarrow>
            (sizeof_Data sys \<noteq> 0 \<and> unat (sizeof_Data sys) * (unat r * unat c) < 2 ^ 64 \<longrightarrow>
               ems_create_p1 sys (Some es) i r c = Some ((0, []), Some (es @ [new_event i r c]))) \<and>
            ems_create_p2 sys (Live l) i r c
              = Some ((0, []),
                  Live \<lparr>events = es @ [new_event i r c], num_events = num_events l + 1\<rparr>) \<and>
            reservations (new_event i r c) = 0 \<and>
            (\<forall>v\<in>set (data (new_event i r c)). v = 0) \<and>
            length (es @ [new_event i r c]) = length es + 1)"
proof (intro conjI impI)
  assume "\<exists>e\<in>set es. id_ev e = i"
  then show "ems_create_p1 sys (Some es) i r c = Some ((1, [DuplicateEvent]), Some es)"
    by (rule ems_create_p1_duplicate)
next
  assume "\<exists>e\<in>set es. id_ev e = i" "rwlock_ok sys"
  then show "ems_create_p2 sys (Live l) i r c = Some ((1, [DuplicateEvent]), Live l)"
    using assms by (intro ems_create_p2_duplicate) simp_all
next
  assume a: "(\<forall>e\<in>set es. id_ev e \<noteq> i) \<and> rwlock_ok sys \<and> event_alloc_ok sys \<and>
          mutex_init_ok sys \<and> data_alloc_ok sys \<and> append_ok sys"
  show "ems_create_p1 sys (Some es) i r c = Some ((0, []), Some (es @ [new_event i r c]))"
    if "sizeof_Data sys \<noteq> 0 \<and> unat (sizeof_Data sys) * (unat r * unat c) < 2 ^ 64"
    using a that by (intro ems_create_p1_new) simp_all
  show "ems_create_p2 sys (Live l) i r c
      = Some ((0, []), Live \<lparr>events = es @ [new_event i r c], num_events = num_events l + 1\<rparr>)"
    using a assms ems_create_p2_new[of l i sys r c] by simp
  show "reservations (new_event i r c) = 0" by (simp add: new_event_def)
  show "\<forall>v\<in>set (data (new_event i r c)). v = 0" by (simp add: new_event_def)
  show "length (es @ [new_event i r c]) = length es + 1" by simp
qed

text \<open>In Proj1 the number of bytes of the block is computed in \<^verbatim>\<open>size_t\<close>. If the product wraps
  around, so that the block holds fewer cells than the grid has, the loop that clears the
  cells writes beyond the block.\<close>

lemma ems_create_p1_wrapped:
  assumes "\<forall>e\<in>set es. id_ev e \<noteq> i"
    and "event_alloc_ok sys" "data_alloc_ok sys" "mutex_init_ok sys"
    and "unat (sizeof_Data sys * r * c) div unat (sizeof_Data sys) < unat (r * c)"
  shows "ems_create_p1 sys (Some es) i r c = None"
proof -
  have g: "get_event es i = None" using assms(1) get_event_None_iff[of es i] by simp
  have "init_loop_p1 sys (unat (sizeof_Data sys * r * c) div unat (sizeof_Data sys))
          [0..<unat (r * c)] = None"
    using assms(4,5) by (rule init_loop_p1_beyond)
  then show ?thesis using assms(2,3) g by (simp add: ems_create_p1_def)
qed

text \<open>
  Claim C5 (creating an event) fails on Proj1. On an empty list, with every lock and every
  allocation succeeding, neither \<^verbatim>\<open>CREATE 1 2147483648 1073741824\<close> nor
  \<^verbatim>\<open>CREATE 1 1073741825 1073741824\<close> appends an event with a grid of zeros. The number of
  bytes that \<^verbatim>\<open>ems_create\<close> asks of \<^verbatim>\<open>malloc\<close>,
  \<^verbatim>\<open>sizeof(struct Data) * num_rows * num_cols\<close> with cells of 48 bytes, wraps around: to 0
  for the first grid, of \<open>2\<^sup>6\<^sup>1\<close> cells, and to the bytes of \<open>2\<^sup>3\<^sup>0\<close> cells for the second, of
  \<open>2\<^sup>6\<^sup>0 + 2\<^sup>3\<^sup>0\<close> cells. The loop that clears the cells then writes beyond the block, and
  the call has no defined result. Proj2, which gives \<^verbatim>\<open>calloc\<close> the number of cells and
  the size of a cell apart, creates the events.
\<close>

theorem create_p1_byte_count_wraps:
  "ems_create_p1 ok_sys (Some []) 1 2147483648 1073741824 = None \<and>
   ems_create_p1 ok_sys (Some []) 1 1073741825 1073741824 = None \<and>
   ems_create_p2 ok_sys (Live (registry [])) 1 2147483648 1073741824
     = Some ((0, []), Live (registry [new_event 1 2147483648 1073741824])) \<and>
   ems_create_p2 ok_sys (Live (registry [])) 1 1073741825 1073741824
     = Some ((0, []), Live (registry [new_event 1 1073741825 1073741824]))"
proof -
  have "unat (sizeof_Data ok_sys * 2147483648 * 1073741824) div unat (sizeof_Data ok_sys)
      < unat (2147483648 * 1073741824 :: size_t)"
    by (simp add: ok_sys_def)
  then have a: "ems_create_p1 ok_sys (Some []) 1 2147483648 1073741824 = None"
    by (intro ems_create_p1_wrapped) (simp_all add: ok_sys_def)
  have "unat (sizeof_Data ok_sys * 1073741825 * 1073741824) div unat (sizeof_Data ok_sys)
      < unat (1073741825 * 1073741824 :: size_t)"
    by (simp add: ok_sys_def)
  then have b: "ems_create_p1 ok_sys (Some []) 1 1073741825 1073741824 = None"
    by (intro ems_create_p1_wrapped) (simp_all add: ok_sys_def)
  have c: "ems_create_p2 ok_sys (Live (registry [])) 1 2147483648 1073741824
     = Some ((0, []), Live (registry [new_event 1 2147483648 1073741824]))"
    using ems_create_p2_new[of "registry []" 1 ok_sys 2147483648 1073741824]
    by (simp add: ok_sys_def registry_def)
  have d: "ems_create_p2 ok_sys (Live (registry [])) 1 1073741825 1073741824
     = Some ((0, []), Live (registry [new_event 1 1073741825 1073741824]))"
    using ems_create_p2_new[of "registry []" 1 ok_sys 1073741825 1073741824]
    by (simp add: ok_sys_def registry_def)
  show ?thesis by (intro conjI a b c d)
qed

lemma ems_terminate_not_initialized:
  "ems_terminate_p1 None = ((1, [NotInitialized]), None)"
  "ems_terminate_p2 sys NULL = Some ((1, [NotInitialized]), NULL)"
  by (simp_all add: ems_terminate_p1_def ems_terminate_p2_def)

text \<open>In Proj1 \<^verbatim>\<open>ems_init\<close> fails exactly on a list that is there, and \<^verbatim>\<open>ems_terminate\<close>
  takes the list away, so that the next \<^verbatim>\<open>ems_init\<close> makes an empty one.\<close>

lemma ems_init_p1_iff:
  "list_alloc_ok sys \<Longrightarrow>
     ems_init_p1 sys st = (if st = None then ((0, []), Some []) else ((1, [AlreadyInitialized]), st))"
  by (simp add: ems_init_p1_def create_list_def)

lemma ems_init_terminate_init_p1:
  "list_alloc_ok sys \<Longrightarrow>
     ems_terminate_p1 (Some es) = ((0, []), None) \<and> ems_init_p1 sys None = ((0, []), Some [])"
  by (simp add: ems_init_p1_def ems_terminate_p1_def create_list_def)

text \<open>
  Claim C6 (starting again after the end) fails on Proj2. \<^verbatim>\<open>ems_init\<close> succeeds on the
  initial state and \<^verbatim>\<open>ems_terminate\<close> then succeeds, but it frees the list without
  resetting the pointer, so that the next \<^verbatim>\<open>ems_init\<close> finds a pointer that is not
  \<^verbatim>\<open>NULL\<close> and returns 1 with the message for \<open>AlreadyInitialized\<close>.
\<close>

theorem init_after_terminate_p2:
  "ems_init_p2 ok_sys NULL = ((0, []), Live (registry [])) \<and>
   ems_terminate_p2 ok_sys (Live (registry [])) = Some ((0, []), Dangling) \<and>
   ems_init_p2 ok_sys Dangling = ((1, [AlreadyInitialized]), Dangling)"
  by (simp add: ems_init_p2_def ems_terminate_p2_def create_list_def example_defs)

section \<open>Listing the events\<close>

lemma dec_length_le: "n < 10 ^ k \<Longrightarrow> 0 < k \<Longrightarrow> length (dec n) \<le> k"
proof (induction n arbitrary: k rule: dec.induct)
  case (1 n)
  show ?case
  proof (cases "n < 10")
    case True
    then show ?thesis using "1.prems" by (simp add: dec.simps[of n])
  next
    case False
    obtain k' where k: "k = Suc k'" using "1.prems"(2) by (cases k) auto
    have "k' > 0" using False "1.prems"(1) k by (cases k') auto
    moreover have "n div 10 < 10 ^ k'" using "1.prems"(1) k by (simp add: less_mult_imp_div_less)
    ultimately have "length (dec (n div 10)) \<le> k'" using "1.IH"[OF False] by simp
    then show ?thesis using False k by (simp add: dec.simps[of n])
  qed
qed

lemma list_loop_p1_eq:
  "\<forall>e\<in>set es. unat (id_ev e) < 10 ^ 8 \<Longrightarrow>
     list_loop_p1 es out = Some (out @ concat (map (event_line \<circ> id_ev) es))"
proof (induction es arbitrary: out)
  case Nil
  then show ?case by simp
next
  case (Cons e es)
  have "length (dec (unat (id_ev e))) \<le> 8"
    using Cons.prems by (intro dec_length_le) simp_all
  then show ?case using Cons by (simp add: event_line_def)
qed

lemma dec_length_gt: "10 ^ k \<le> n \<Longrightarrow> k < length (dec n)"
proof (induction n arbitrary: k rule: dec.induct)
  case (1 n)
  show ?case
  proof (cases "n < 10")
    case True
    have "k = 0"
    proof (cases k)
      case (Suc k')
      have "(10 :: nat) \<le> 10 * 10 ^ k'" by simp
      moreover have "10 * 10 ^ k' \<le> n" using "1.prems" Suc by simp
      ultimately show ?thesis using True by linarith
    qed simp
    then show ?thesis using True by (simp add: dec.simps[of n])
  next
    case False
    show ?thesis
    proof (cases k)
      case 0
      then show ?thesis using False by (simp add: dec.simps[of n])
    next
      case (Suc k')
      have "10 ^ k' \<le> n div 10" using "1.prems" Suc by simp
      then have "k' < length (dec (n div 10))" using "1.IH"[OF False] by simp
      then show ?thesis using False Suc by (simp add: dec.simps[of n])
    qed
  qed
qed

text \<open>An id of nine digits or more does not fit the buffer of 10 bytes that Proj1 prints
  a line of the list into.\<close>

lemma list_loop_p1_overflow:
  "\<exists>e\<in>set es. 10 ^ 8 \<le> unat (id_ev e) \<Longrightarrow> list_loop_p1 es out = None"
proof (induction es arbitrary: out)
  case Nil
  then show ?case by simp
next
  case (Cons e es)
  show ?case
  proof (cases "10 ^ 8 \<le> unat (id_ev e)")
    case True
    then have "8 < length (dec (unat (id_ev e)))" by (rule dec_length_gt)
    then show ?thesis by simp
  next
    case False
    then have "\<exists>e\<in>set es. 10 ^ 8 \<le> unat (id_ev e)" using Cons.prems by simp
    then have "list_loop_p1 es (out @ ''Event: '' @ dec (unat (id_ev e)) @ [newline]) = None"
      by (rule Cons.IH)
    then show ?thesis by simp
  qed
qed

lemma list_loop_p2_eq:
  "es \<noteq> [] \<Longrightarrow> count + length es \<le> length arr \<Longrightarrow> count + length es \<le> 2 ^ 31 \<Longrightarrow>
     list_loop_p2 es count arr
       = Some (take count arr @ map id_ev es @ drop (count + length es) arr)"
proof (induction es arbitrary: count arr)
  case Nil
  then show ?case by simp
next
  case (Cons e es)
  have c: "count < length arr" using Cons.prems by simp
  show ?case
  proof (cases "es = []")
    case True
    then show ?thesis using c by (simp add: upd_conv_take_nth_drop)
  next
    case False
    let ?arr = "arr[count := id_ev e]"
    have s: "Suc count < 2 ^ 31" using Cons.prems False by (cases es) auto
    have "list_loop_p2 es (Suc count) ?arr
        = Some (take (Suc count) ?arr @ map id_ev es @ drop (Suc count + length es) ?arr)"
      using Cons.prems False by (intro Cons.IH) simp_all
    moreover have "take (Suc count) ?arr = take count arr @ [id_ev e]"
      using c by (simp add: take_Suc_conv_app_nth)
    moreover have "drop (Suc count + length es) ?arr = drop (Suc count + length es) arr"
      by (simp add: drop_update_cancel)
    ultimately show ?thesis using c s False by simp
  qed
qed

lemma creates_p1_distinct:
  assumes "distinct (map fst cs)" "\<forall>e\<in>set es. id_ev e \<notin> fst ` set cs"
    and "\<forall>(i, r, c)\<in>set cs. 48 * (unat r * unat c) < 2 ^ 64"
  shows "creates_p1 ok_sys (Some es) cs
    = Some (replicate (length cs) 0, Some (es @ map (\<lambda>(i, r, c). new_event i r c) cs))"
  using assms
proof (induction cs arbitrary: es)
  case Nil
  then show ?case by simp
next
  case (Cons a cs)
  obtain i r c where a: "a = (i, r, c)" by (cases a)
  have "unat (sizeof_Data ok_sys) * (unat r * unat c) < 2 ^ 64"
    using Cons.prems(3) by (simp add: a ok_sys_def mult.commute)
  then have new: "ems_create_p1 ok_sys (Some es) i r c = Some ((0, []), Some (es @ [new_event i r c]))"
    using Cons.prems(2) by (intro ems_create_p1_new) (auto simp: a ok_sys_def)
  have "creates_p1 ok_sys (Some (es @ [new_event i r c])) cs
      = Some (replicate (length cs) 0,
          Some ((es @ [new_event i r c]) @ map (\<lambda>(i, r, c). new_event i r c) cs))"
    using Cons.prems by (intro Cons.IH) (auto simp: a new_event_def)
  then show ?case using new by (simp add: a)
qed

lemma creates_p2_distinct:
  assumes "distinct (map fst cs)" "\<forall>e\<in>set (events l). id_ev e \<notin> fst ` set cs"
  shows "creates_p2 ok_sys (Live l) cs
    = Some (replicate (length cs) 0,
        Live \<lparr>events = events l @ map (\<lambda>(i, r, c). new_event i r c) cs,
              num_events = num_events l + of_nat (length cs)\<rparr>)"
  using assms
proof (induction cs arbitrary: l)
  case Nil
  then show ?case by simp
next
  case (Cons a cs)
  obtain i r c where a: "a = (i, r, c)" by (cases a)
  let ?l = "\<lparr>events = events l @ [new_event i r c], num_events = num_events l + 1\<rparr>"
  have new: "ems_create_p2 ok_sys (Live l) i r c = Some ((0, []), Live ?l)"
    using Cons.prems(2) by (intro ems_create_p2_new) (auto simp: a ok_sys_def)
  have "creates_p2 ok_sys (Live ?l) cs
      = Some (replicate (length cs) 0,
          Live \<lparr>events = events ?l @ map (\<lambda>(i, r, c). new_event i r c) cs,
                num_events = num_events ?l + of_nat (length cs)\<rparr>)"
    using Cons.prems by (intro Cons.IH) (auto simp: a new_event_def)
  then show ?case using new by (simp add: a add.assoc)
qed

lemma map_id_ev_new: "map (id_ev \<circ> (\<lambda>(i, r, c). new_event i r c)) cs = map fst cs"
  by (induction cs) (auto simp: new_event_def)

lemma ems_list_events_p1_eq:
  assumes "es \<noteq> []" "\<forall>e\<in>set es. unat (id_ev e) < 10 ^ 8"
  shows "ems_list_events_p1 (Some es) = Some ((0, []), concat (map event_line (map id_ev es)))"
  using assms list_loop_p1_eq[OF assms(2), of "[]"] by (simp add: ems_list_events_p1_def)

lemma ems_list_events_p2_eq:
  assumes "events l \<noteq> []" "unat (num_events l) = length (events l)" "length (events l) \<le> 2 ^ 31"
    and "rwlock_ok sys"
  shows "ems_list_events_p2 sys (Live l)
    = Some ([], [FInt 0, FSize (num_events l), FArray (map id_ev (events l))])"
proof -
  have "num_events l \<noteq> 0" using assms(1,2) by (auto simp: unat_eq_0[symmetric] simp del: unat_eq_0)
  moreover have "list_loop_p2 (events l) 0 (replicate (unat (num_events l)) 0)
      = Some (map id_ev (events l))"
    using list_loop_p2_eq[of "events l" 0 "replicate (unat (num_events l)) 0"] assms by simp
  ultimately show ?thesis using assms by (simp add: ems_list_events_p2_def)
qed

text \<open>
  What \<^verbatim>\<open>ems_list_events\<close> does after creations that fit. Let the events of \<open>cs\<close>, with
  distinct ids, be created one after the other in a state just initialised. Every
  \<^verbatim>\<open>ems_create\<close> returns 0 (in Proj1 if the number of bytes of every grid is below
  \<open>2\<^sup>6\<^sup>4\<close>), and then \<^verbatim>\<open>ems_list_events\<close>, on at least one event, writes the ids in the
  order of creation: in Proj1 one line "Event: id" for each id, if every id is below
  \<open>10\<^sup>8\<close>; in Proj2 the status 0, the number of events and the array of the ids, if there
  are at most \<open>2\<^sup>3\<^sup>1\<close> events (the index is an \<^verbatim>\<open>int\<close>). On no event at all Proj1 returns
  0 and writes nothing, with the message "No events".
\<close>

lemma list_events_in_creation_order:
  assumes "distinct (map fst cs)"
  shows "((\<forall>(i, r, c)\<in>set cs. 48 * (unat r * unat c) < 2 ^ 64) \<longrightarrow>
          (\<exists>es. creates_p1 ok_sys (Some []) cs = Some (replicate (length cs) 0, Some es) \<and>
            (cs = [] \<longrightarrow> ems_list_events_p1 (Some es) = Some ((0, [NoEvents]), [])) \<and>
            (cs \<noteq> [] \<and> (\<forall>i\<in>set (map fst cs). unat i < 10 ^ 8) \<longrightarrow>
               ems_list_events_p1 (Some es)
                 = Some ((0, []), concat (map event_line (map fst cs)))))) \<and>
         (\<exists>l. creates_p2 ok_sys (Live (registry [])) cs = Some (replicate (length cs) 0, Live l) \<and>
            (cs \<noteq> [] \<and> length cs \<le> 2 ^ 31 \<longrightarrow>
               ems_list_events_p2 ok_sys (Live l)
                 = Some ([], [FInt 0, FSize (of_nat (length cs)), FArray (map fst cs)])))"
proof (intro conjI impI)
  let ?es = "map (\<lambda>(i, r, c). new_event i r c) cs"
  have ids: "map id_ev ?es = map fst cs" using map_id_ev_new[of cs] by simp
  have e1: "ems_list_events_p1 (Some ?es) = Some ((0, [NoEvents]), [])" if "cs = []"
    using that by (simp add: ems_list_events_p1_def)
  have n1: "ems_list_events_p1 (Some ?es) = Some ((0, []), concat (map event_line (map fst cs)))"
    if "cs \<noteq> []" "\<forall>i\<in>set (map fst cs). unat i < 10 ^ 8"
  proof -
    have "\<forall>e\<in>set ?es. unat (id_ev e) < 10 ^ 8"
      using that(2) unfolding ids[symmetric] by simp
    moreover have "?es \<noteq> []" using that(1) by simp
    ultimately have "ems_list_events_p1 (Some ?es)
        = Some ((0, []), concat (map event_line (map id_ev ?es)))"
      by (intro ems_list_events_p1_eq)
    then show ?thesis unfolding ids .
  qed
  show "\<exists>es. creates_p1 ok_sys (Some []) cs = Some (replicate (length cs) 0, Some es) \<and>
          (cs = [] \<longrightarrow> ems_list_events_p1 (Some es) = Some ((0, [NoEvents]), [])) \<and>
          (cs \<noteq> [] \<and> (\<forall>i\<in>set (map fst cs). unat i < 10 ^ 8) \<longrightarrow>
             ems_list_events_p1 (Some es) = Some ((0, []), concat (map event_line (map fst cs))))"
    if fit: "\<forall>(i, r, c)\<in>set cs. 48 * (unat r * unat c) < 2 ^ 64"
  proof -
    have c1: "creates_p1 ok_sys (Some []) cs = Some (replicate (length cs) 0, Some ?es)"
      using creates_p1_distinct[OF assms _ fit, of "[]"] by simp
    show ?thesis using c1 e1 n1 by blast
  qed
  let ?l = "\<lparr>events = ?es, num_events = of_nat (length cs) :: size_t\<rparr>"
  have c2: "creates_p2 ok_sys (Live (registry [])) cs = Some (replicate (length cs) 0, Live ?l)"
    using creates_p2_distinct[OF assms, of "registry []"] by (simp add: registry_def)
  have n2: "ems_list_events_p2 ok_sys (Live ?l)
      = Some ([], [FInt 0, FSize (of_nat (length cs)), FArray (map fst cs)])"
    if "cs \<noteq> []" "length cs \<le> 2 ^ 31"
  proof -
    have "length cs < 2 ^ 64" using that(2) by simp
    then have "unat (of_nat (length cs) :: size_t) = length cs" by (simp add: unat_of_nat)
    then have "ems_list_events_p2 ok_sys (Live ?l)
        = Some ([], [FInt 0, FSize (num_events ?l), FArray (map id_ev (events ?l))])"
      using that by (intro ems_list_events_p2_eq) (simp_all add: ok_sys_def)
    then show ?thesis using ids by simp
  qed
  show "\<exists>l. creates_p2 ok_sys (Live (registry [])) cs = Some (replicate (length cs) 0, Live l) \<and>
          (cs \<noteq> [] \<and> length cs \<le> 2 ^ 31 \<longrightarrow>
             ems_list_events_p2 ok_sys (Live l)
               = Some ([], [FInt 0, FSize (of_nat (length cs)), FArray (map fst cs)]))"
    using c2 n2 by blast
qed

lemma dec_digit: "n < 10 \<Longrightarrow> dec n = [digit n]"
  by (simp add: dec.simps[of n])

text \<open>
  Claim C7 (listing the events) fails on both programs, each on the input that the other
  one answers as the claim says.
  \<^item> No event: on the state that \<^verbatim>\<open>ems_init\<close> makes, \<^verbatim>\<open>ems_list_events\<close> of Proj2 answers
    the status 1, the status of an error, and nothing else. Proj1 on the same state
    returns 0, writes no line and reports "No events".
  \<^item> One event: after \<^verbatim>\<open>CREATE 123456789 1 1\<close>, which returns 0, \<^verbatim>\<open>ems_list_events\<close> of
    Proj1 prints the nine digits, the newline and the final zero into a buffer of 10
    bytes, and so writes beyond it: the call has no defined result. Proj2 after the same
    creation answers the status 0, the number 1 and the id.
\<close>

theorem list_events_failures:
  "ems_init_p2 ok_sys NULL = ((0, []), Live (registry [])) \<and>
   ems_list_events_p2 ok_sys (Live (registry [])) = Some ([], [FInt 1]) \<and>
   ems_init_p1 ok_sys None = ((0, []), Some []) \<and>
   ems_list_events_p1 (Some []) = Some ((0, [NoEvents]), []) \<and>
   ems_create_p1 ok_sys (Some []) 123456789 1 1 = Some ((0, []), Some [new_event 123456789 1 1]) \<and>
   ems_list_events_p1 (Some [new_event 123456789 1 1]) = None \<and>
   ems_create_p2 ok_sys (Live (registry [])) 123456789 1 1
     = Some ((0, []), Live (registry [new_event 123456789 1 1])) \<and>
   ems_list_events_p2 ok_sys (Live (registry [new_event 123456789 1 1]))
     = Some ([], [FInt 0, FSize 1, FArray [123456789]])"
proof -
  let ?e = "new_event 123456789 1 1"
  have i2: "ems_init_p2 ok_sys NULL = ((0, []), Live (registry []))"
    by (simp add: ems_init_p2_def create_list_def example_defs)
  have l2: "ems_list_events_p2 ok_sys (Live (registry [])) = Some ([], [FInt 1])"
    by (simp add: ems_list_events_p2_def example_defs)
  have i1: "ems_init_p1 ok_sys None = ((0, []), Some [])"
    by (simp add: ems_init_p1_def create_list_def ok_sys_def)
  have l1: "ems_list_events_p1 (Some []) = Some ((0, [NoEvents]), [])"
    by (simp add: ems_list_events_p1_def)
  have c1: "ems_create_p1 ok_sys (Some []) 123456789 1 1 = Some ((0, []), Some [?e])"
    using ems_create_p1_new[of "[]" 123456789 ok_sys 1 1] by (simp add: ok_sys_def)
  have "\<exists>e\<in>set [?e]. 10 ^ 8 \<le> unat (id_ev e)" by (simp add: new_event_def)
  then have "list_loop_p1 [?e] [] = None" by (rule list_loop_p1_overflow)
  then have o1: "ems_list_events_p1 (Some [?e]) = None" by (simp add: ems_list_events_p1_def)
  have c2: "ems_create_p2 ok_sys (Live (registry [])) 123456789 1 1
      = Some ((0, []), Live (registry [?e]))"
    using ems_create_p2_new[of "registry []" 123456789 ok_sys 1 1]
    by (simp add: ok_sys_def registry_def)
  have "ems_list_events_p2 ok_sys (Live (registry [?e]))
      = Some ([], [FInt 0, FSize (num_events (registry [?e])), FArray (map id_ev (events (registry [?e])))])"
    by (intro ems_list_events_p2_eq) (simp_all add: registry_def ok_sys_def)
  then have o2: "ems_list_events_p2 ok_sys (Live (registry [?e]))
      = Some ([], [FInt 0, FSize 1, FArray [123456789]])"
    by (simp add: registry_def new_event_def)
  show ?thesis by (intro conjI i2 l2 i1 l1 c1 o1 c2 o2)
qed

section \<open>Showing an event\<close>

lemma seat_index_of_nat:
  assumes wf: "wf_event e" and i: "1 \<le> i" "i \<le> unat (rows e)" and j: "1 \<le> j" "j \<le> unat (cols e)"
  shows "unat (seat_index e (of_nat i) (of_nat j)) = (i - 1) * unat (cols e) + (j - 1)"
    and "(i - 1) * unat (cols e) + (j - 1) < length (data e)"
proof -
  have ui: "unat (of_nat i :: size_t) = i" and uj: "unat (of_nat j :: size_t) = j"
    using i(2) j(2) by (simp_all add: unat_of_nat_le)
  have "\<not> out_of_bounds e (of_nat i, of_nat j)"
    using i j ui uj by (simp add: out_of_bounds_def word_le_nat_alt word_less_nat_alt not_le not_less)
  then show "unat (seat_index e (of_nat i) (of_nat j)) = (i - 1) * unat (cols e) + (j - 1)"
    using unat_seat_index[of e "of_nat i" "of_nat j"] wf ui uj by (simp add: wf_event_def)
  show "(i - 1) * unat (cols e) + (j - 1) < length (data e)"
    using row_major_bound[OF i j] wf by (simp add: wf_event_def)
qed

text \<open>The inner loop of Proj2's \<^verbatim>\<open>ems_show\<close> copies the rest of row \<open>i\<close>.\<close>

lemma show_cols_p2_eq:
  assumes wf: "wf_event e" and i: "1 \<le> i" "i \<le> unat (rows e)"
    and small: "length (data e) < 2 ^ 31"
  shows "1 \<le> j0 \<Longrightarrow> j0 \<le> Suc (unat (cols e)) \<Longrightarrow> length resp = length (data e) \<Longrightarrow>
     take ((i - 1) * unat (cols e) + (j0 - 1)) resp
       = take ((i - 1) * unat (cols e) + (j0 - 1)) (data e) \<Longrightarrow>
     \<exists>resp'. show_cols_p2 e (of_nat i) [j0..<Suc (unat (cols e))]
                 ((i - 1) * unat (cols e) + (j0 - 1), resp) = Some (i * unat (cols e), resp') \<and>
       length resp' = length (data e) \<and>
       take (i * unat (cols e)) resp' = take (i * unat (cols e)) (data e)"
proof (induction "Suc (unat (cols e)) - j0" arbitrary: j0 resp)
  case 0
  then have j0: "j0 = Suc (unat (cols e))" by simp
  have "(i - 1) * unat (cols e) + unat (cols e) = i * unat (cols e)"
    using i(1) by (cases i) simp_all
  then show ?case using "0.prems" j0 by simp
next
  case (Suc m)
  let ?c = "unat (cols e)"
  define count where "count = (i - 1) * ?c + (j0 - 1)"
  have j0: "j0 \<le> ?c" using Suc.hyps(2) by simp
  have s: "unat (seat_index e (of_nat i) (of_nat j0)) = count" "count < length (data e)"
    using seat_index_of_nat[OF wf i Suc.prems(1) j0] by (simp_all add: count_def)
  let ?resp = "resp[count := data e ! count]"
  have upt: "[j0..<Suc ?c] = j0 # [Suc j0..<Suc ?c]"
    using j0 by (simp add: upt_conv_Cons del: upt_Suc)
  have cnt: "(i - 1) * ?c + (Suc j0 - 1) = Suc count" using Suc.prems(1) by (simp add: count_def)
  have step: "show_cols_p2 e (of_nat i) (j0 # js) (count, resp)
      = show_cols_p2 e (of_nat i) js (Suc count, ?resp)" for js
    using s small Suc.prems(3) by simp
  have "take (Suc count) ?resp = take (Suc count) (data e)"
    using s(2) Suc.prems(3,4) by (simp add: take_Suc_conv_app_nth count_def)
  then have "\<exists>resp'. show_cols_p2 e (of_nat i) [Suc j0..<Suc ?c] ((i - 1) * ?c + (Suc j0 - 1), ?resp)
        = Some (i * ?c, resp') \<and> length resp' = length (data e) \<and>
        take (i * ?c) resp' = take (i * ?c) (data e)"
    using Suc.hyps(2) j0 Suc.prems(3) by (intro Suc.hyps(1)) (simp_all only: cnt, simp_all)
  then show ?case unfolding cnt count_def[symmetric] upt step .
qed

lemma show_rows_p2_eq:
  assumes wf: "wf_event e" and small: "length (data e) < 2 ^ 31"
  shows "1 \<le> i0 \<Longrightarrow> i0 \<le> Suc (unat (rows e)) \<Longrightarrow> length resp = length (data e) \<Longrightarrow>
     take ((i0 - 1) * unat (cols e)) resp = take ((i0 - 1) * unat (cols e)) (data e) \<Longrightarrow>
     show_rows_p2 e [i0..<Suc (unat (rows e))] ((i0 - 1) * unat (cols e), resp)
       = Some (length (data e), data e)"
proof (induction "Suc (unat (rows e)) - i0" arbitrary: i0 resp)
  case 0
  then have "i0 = Suc (unat (rows e))" by simp
  then have n: "(i0 - 1) * unat (cols e) = length (data e)" and nil: "[i0..<Suc (unat (rows e))] = []"
    using wf by (simp_all add: wf_event_def)
  then have "resp = data e" using "0.prems"(3,4) by simp
  then show ?case unfolding nil n by simp
next
  case (Suc m)
  let ?c = "unat (cols e)"
  have i0: "i0 \<le> unat (rows e)" using Suc.hyps(2) by simp
  have upt: "[i0..<Suc (unat (rows e))] = i0 # [Suc i0..<Suc (unat (rows e))]"
    using i0 by (simp add: upt_conv_Cons del: upt_Suc)
  obtain resp' where c: "show_cols_p2 e (of_nat i0) [1..<Suc ?c] ((i0 - 1) * ?c, resp) = Some (i0 * ?c, resp')"
    and l: "length resp' = length (data e)" and t: "take (i0 * ?c) resp' = take (i0 * ?c) (data e)"
    using show_cols_p2_eq[OF wf Suc.prems(1) i0 small, of 1 resp] Suc.prems(3,4) by auto
  have "show_rows_p2 e [Suc i0..<Suc (unat (rows e))] ((Suc i0 - 1) * ?c, resp')
      = Some (length (data e), data e)"
    using Suc.hyps(2) i0 l t by (intro Suc.hyps(1)) simp_all
  then show ?case unfolding upt using c by (simp del: upt_Suc)
qed

text \<open>On a well-formed event of 1 to \<open>2\<^sup>3\<^sup>1 - 1\<close> seats Proj2's \<^verbatim>\<open>ems_show\<close> answers the status
  0, the shape and the array of the event: the cell of (row, col) at the index
  \<open>(row - 1) * cols + (col - 1)\<close>.\<close>

lemma ems_show_p2_eq:
  assumes g: "get_event (events l) i = Some k" and wf: "wf_event (events l ! k)"
    and n: "1 \<le> length (data (events l ! k))" "length (data (events l ! k)) < 2 ^ 31"
    and ok: "rwlock_ok sys" "mutex_ok sys"
  shows "ems_show_p2 sys (Live l) i
    = Some ([], [FInt 0, FSize (rows (events l ! k)), FSize (cols (events l ! k)),
                 FArray (data (events l ! k))])"
proof -
  let ?e = "events l ! k"
  let ?r = "unat (rows ?e)" and ?c = "unat (cols ?e)"
  have len: "length (data ?e) = ?r * ?c" and lt: "?r * ?c < 2 ^ 64"
    using wf by (simp_all add: wf_event_def)
  have prod: "unat (rows ?e * cols ?e) = ?r * ?c" using lt by (simp add: unat_mult_lem[THEN iffD1])
  have nz: "rows ?e * cols ?e \<noteq> 0" using prod n(1) len by (metis not_one_le_zero unat_0)
  have pos: "1 \<le> ?r" "1 \<le> ?c" using n(1) len by (cases ?r; cases ?c; simp)+
  have "?r * 1 \<le> ?r * ?c" "1 * ?c \<le> ?r * ?c" using pos by (simp_all only: mult_le_mono)
  then have "?r < 2 ^ 31" "?c < 2 ^ 31" using n(2) len by linarith+
  moreover have "unat (- 1 :: size_t) = 18446744073709551615"
    by (simp add: unsigned_minus_1_eq_mask mask_eq_exp_minus_1)
  ultimately have m: "rows ?e \<noteq> - 1" "cols ?e \<noteq> - 1" by auto
  have "show_rows_p2 ?e [1..<Suc ?r] ((1 - 1) * ?c, replicate (?r * ?c) 0) = Some (length (data ?e), data ?e)"
    using len by (intro show_rows_p2_eq[OF wf n(2)]) simp_all
  then show ?thesis using g ok nz m prod by (simp add: ems_show_p2_def Let_def del: upt_Suc)
qed

lemma row_text_Cons:
  "row_text (v # vs) = dec (unat v) @ (if vs = [] then [] else '' '') @ row_text vs"
  by (cases vs) simp_all

text \<open>The inner loop of Proj1's \<^verbatim>\<open>ems_show\<close> writes the rest of row \<open>i\<close>, but for the newline.\<close>

lemma show_cols_p1_eq:
  assumes wf: "wf_event e" and i: "1 \<le> i" "i \<le> unat (rows e)"
    and digits: "\<forall>v\<in>set (data e). unat v < 10"
  shows "1 \<le> j0 \<Longrightarrow> j0 \<le> Suc (unat (cols e)) \<Longrightarrow>
     \<exists>out'. show_cols_p1 e (of_nat i) [j0..<Suc (unat (cols e))] out = Some out' \<and>
       out' @ [newline]
         = out @ row_text (map (\<lambda>j. data e ! ((i - 1) * unat (cols e) + (j - 1)))
                            [j0..<Suc (unat (cols e))])"
proof (induction "Suc (unat (cols e)) - j0" arbitrary: j0 out)
  case 0
  then have "[j0..<Suc (unat (cols e))] = []" by simp
  then show ?case by simp
next
  case (Suc m)
  let ?c = "unat (cols e)"
  let ?f = "\<lambda>j. data e ! ((i - 1) * ?c + (j - 1))"
  have j0: "j0 \<le> ?c" using Suc.hyps(2) by simp
  have s: "unat (seat_index e (of_nat i) (of_nat j0)) = (i - 1) * ?c + (j0 - 1)"
      "(i - 1) * ?c + (j0 - 1) < length (data e)"
    using seat_index_of_nat[OF wf i Suc.prems(1) j0] by simp_all
  have "?f j0 \<in> set (data e)" using s(2) by simp
  then have d: "length (dec (unat (?f j0))) = 1"
    using digits by (simp add: dec_digit)
  have lt: "(of_nat j0 :: size_t) < cols e \<longleftrightarrow> j0 < ?c"
    using unat_of_nat_le[OF j0] by (simp add: word_less_nat_alt)
  have upt: "[j0..<Suc ?c] = j0 # [Suc j0..<Suc ?c]"
    using j0 by (simp add: upt_conv_Cons del: upt_Suc)
  have nil: "[Suc j0..<Suc ?c] = [] \<longleftrightarrow> \<not> j0 < ?c" by auto
  let ?out = "out @ dec (unat (?f j0)) @ (if j0 < ?c then '' '' else [])"
  have step: "show_cols_p1 e (of_nat i) (j0 # js) out = show_cols_p1 e (of_nat i) js ?out" for js
    using s d lt by simp
  have "\<exists>out'. show_cols_p1 e (of_nat i) [Suc j0..<Suc ?c] ?out = Some out' \<and>
      out' @ [newline] = ?out @ row_text (map ?f [Suc j0..<Suc ?c])"
    using Suc.hyps(2) j0 by (intro Suc.hyps(1)) simp_all
  then obtain out' where o: "show_cols_p1 e (of_nat i) [Suc j0..<Suc ?c] ?out = Some out'"
    and t: "out' @ [newline] = ?out @ row_text (map ?f [Suc j0..<Suc ?c])"
    by blast
  have "out' @ [newline] = out @ row_text (map ?f (j0 # [Suc j0..<Suc ?c]))"
    unfolding t list.map row_text_Cons using nil by (simp del: upt_Suc)
  then show ?case unfolding upt step using o by blast
qed

lemma show_rows_p1_eq:
  assumes wf: "wf_event e" and digits: "\<forall>v\<in>set (data e). unat v < 10"
  shows "1 \<le> i0 \<Longrightarrow> i0 \<le> Suc (unat (rows e)) \<Longrightarrow>
     show_rows_p1 e [i0..<Suc (unat (rows e))] out
       = Some (out @ concat (map (\<lambda>i. row_text (map (\<lambda>j. data e ! ((i - 1) * unat (cols e) + (j - 1)))
                                             [1..<Suc (unat (cols e))]))
                             [i0..<Suc (unat (rows e))]))"
proof (induction "Suc (unat (rows e)) - i0" arbitrary: i0 out)
  case 0
  then have "[i0..<Suc (unat (rows e))] = []" by simp
  then show ?case by simp
next
  case (Suc m)
  let ?c = "unat (cols e)"
  let ?row = "\<lambda>i. row_text (map (\<lambda>j. data e ! ((i - 1) * ?c + (j - 1))) [1..<Suc ?c])"
  have i0: "i0 \<le> unat (rows e)" using Suc.hyps(2) by simp
  have upt: "[i0..<Suc (unat (rows e))] = i0 # [Suc i0..<Suc (unat (rows e))]"
    using i0 by (simp add: upt_conv_Cons del: upt_Suc)
  have "\<exists>out'. show_cols_p1 e (of_nat i0) [1..<Suc ?c] out = Some out' \<and>
      out' @ [newline] = out @ ?row i0"
    by (intro show_cols_p1_eq[OF wf Suc.prems(1) i0 digits]) simp_all
  then obtain out' where o: "show_cols_p1 e (of_nat i0) [1..<Suc ?c] out = Some out'"
    and t: "out' @ [newline] = out @ ?row i0"
    by blast
  have "show_rows_p1 e [Suc i0..<Suc (unat (rows e))] (out' @ [newline])
      = Some ((out' @ [newline]) @ concat (map ?row [Suc i0..<Suc (unat (rows e))]))"
    using Suc.hyps(2) i0 by (intro Suc.hyps(1)) simp_all
  then show ?case unfolding upt t using o t by (simp del: upt_Suc)
qed

text \<open>On a well-formed event whose cells are below 10, Proj1's \<^verbatim>\<open>ems_show\<close> writes the text
  of the grid.\<close>

lemma ems_show_p1_eq:
  assumes g: "get_event es i = Some k" and wf: "wf_event (es ! k)"
    and digits: "\<forall>v\<in>set (data (es ! k)). unat v < 10"
    and m: "rows (es ! k) \<noteq> - 1" "cols (es ! k) \<noteq> - 1"
  shows "ems_show_p1 (Some es) i = Some ((0, []), grid_text (es ! k))"
proof -
  have "show_rows_p1 (es ! k) [1..<Suc (unat (rows (es ! k)))] [] = Some (grid_text (es ! k))"
    using show_rows_p1_eq[OF wf digits, of 1 "[]"] by (simp add: grid_text_def grid_rows_def o_def)
  then show ?thesis using g m by (simp add: ems_show_p1_def Let_def del: upt_Suc)
qed

lemma get_event_append:
  "get_event es i = None \<Longrightarrow>
     get_event (es @ [e]) i = (if id_ev e = i then Some (length es) else None)"
  by (induction es) (auto split: if_splits)

lemma ems_create_p1_success:
  assumes "ems_create_p1 sys st i r c = Some ((0, msgs), st')"
  obtains es where "st = Some es" "get_event es i = None" "st' = Some (es @ [new_event i r c])"
  using assms
  by (auto simp: ems_create_p1_def new_event_def append_to_list_def
      split: option.splits if_splits bool.splits)

lemma ems_create_p2_success:
  assumes "ems_create_p2 sys st i r c = Some ((0, msgs), st')"
  obtains l where "st = Live l" "get_event (events l) i = None" "rwlock_ok sys"
    "st' = Live \<lparr>events = events l @ [new_event i r c], num_events = num_events l + 1\<rparr>"
  using assms
  by (auto simp: ems_create_p2_def new_event_def append_to_list_def split: ptr.splits if_splits)

lemma grid_rows_new:
  assumes "unat r * unat c < 2 ^ 64"
  shows "grid_rows (new_event i r c) = replicate (unat r) (replicate (unat c) 0)"
proof -
  let ?e = "new_event i r c"
  have rc: "unat (rows ?e) = unat r" "unat (cols ?e) = unat c" by (simp_all add: new_event_def)
  have cell: "data ?e ! ((row - 1) * unat c + (col - 1)) = 0"
    if "row \<in> set [1..<Suc (unat r)]" "col \<in> set [1..<Suc (unat c)]" for row col
  proof -
    have "(row - 1) * unat c + (col - 1) < unat r * unat c"
      using that by (intro row_major_bound) auto
    then show ?thesis using wf_event_new(2)[OF assms] by simp
  qed
  have "map (\<lambda>col. data ?e ! ((row - 1) * unat c + (col - 1))) [1..<Suc (unat c)]
      = replicate (unat c) 0" if "row \<in> set [1..<Suc (unat r)]" for row
    using cell[OF that] by (intro replicate_eqI) auto
  then show ?thesis unfolding grid_rows_def rc by (intro replicate_eqI) auto
qed

text \<open>
  Claim C9 (CREATE, then SHOW). Let \<open>rows * cols \<ge> 1\<close>, and let \<^verbatim>\<open>ems_create\<close> return
  0. Then \<^verbatim>\<open>ems_show\<close> on the new event
  \<^item> in Proj1 returns 0 and writes \<open>rows\<close> lines of \<open>cols\<close> zeros, separated by one
    space, if \<open>rows * cols + 1 < 2\<^sup>6\<^sup>4\<close>;
  \<^item> in Proj2 answers the status 0, \<open>rows\<close>, \<open>cols\<close> and an array of \<open>rows * cols\<close>
    zeros, if \<open>rows * cols < 2\<^sup>3\<^sup>1\<close> (the index is an \<^verbatim>\<open>int\<close>) and the event's
    mutex is taken.
  The array is the event's own, row after row (\<open>ems_show_p2_eq\<close>, \<open>ems_show_p1_eq\<close>):
  the cell of (row, col) is at the index \<open>(row - 1) * cols + (col - 1)\<close>.
\<close>

theorem create_then_show:
  assumes "1 \<le> unat r * unat c"
  shows "(\<forall>msgs st'. ems_create_p1 sys st1 i r c = Some ((0, msgs), st') \<and>
              Suc (unat r * unat c) < 2 ^ 64 \<longrightarrow>
            ems_show_p1 st' i
              = Some ((0, []), concat (replicate (unat r) (row_text (replicate (unat c) 0))))) \<and>
         (\<forall>msgs st'. ems_create_p2 sys st2 i r c = Some ((0, msgs), st') \<and> mutex_ok sys \<and>
              unat r * unat c < 2 ^ 31 \<longrightarrow>
            ems_show_p2 sys st' i
              = Some ([], [FInt 0, FSize r, FSize c, FArray (replicate (unat r * unat c) 0)]))"
proof (intro conjI allI impI)
  fix msgs st'
  assume a: "ems_create_p1 sys st1 i r c = Some ((0, msgs), st') \<and> Suc (unat r * unat c) < 2 ^ 64"
  let ?e = "new_event i r c"
  from a have "ems_create_p1 sys st1 i r c = Some ((0, msgs), st')" by simp
  then obtain es where "st1 = Some es" and es: "get_event es i = None" "st' = Some (es @ [?e])"
    by (rule ems_create_p1_success)
  have lt: "unat r * unat c < 2 ^ 64" using a by simp
  have g: "get_event (es @ [?e]) i = Some (length es)"
    using get_event_append[OF es(1), of ?e] by (simp add: new_event_def)
  have k: "(es @ [?e]) ! length es = ?e" by simp
  have pos: "1 \<le> unat r" "1 \<le> unat c" using assms by (cases "unat r"; cases "unat c"; simp)+
  have "unat r * 1 \<le> unat r * unat c" "1 * unat c \<le> unat r * unat c"
    using pos by (simp_all only: mult_le_mono)
  moreover have "unat r * unat c < 18446744073709551615" using a by simp
  ultimately have "unat r < 18446744073709551615" "unat c < 18446744073709551615" by linarith+
  moreover have "unat (- 1 :: size_t) = 18446744073709551615"
    by (simp add: unsigned_minus_1_eq_mask mask_eq_exp_minus_1)
  ultimately have m: "rows ?e \<noteq> - 1" "cols ?e \<noteq> - 1" by (auto simp: new_event_def)
  have "ems_show_p1 (Some (es @ [?e])) i = Some ((0, []), grid_text ((es @ [?e]) ! length es))"
    using wf_event_new[OF lt, of i] m by (intro ems_show_p1_eq[OF g]) (simp_all add: k)
  then show "ems_show_p1 st' i
      = Some ((0, []), concat (replicate (unat r) (row_text (replicate (unat c) 0))))"
    using es(2) by (simp add: grid_text_def grid_rows_new[OF lt] map_replicate)
next
  fix msgs st'
  assume a: "ems_create_p2 sys st2 i r c = Some ((0, msgs), st') \<and> mutex_ok sys \<and>
      unat r * unat c < 2 ^ 31"
  let ?e = "new_event i r c"
  from a have "ems_create_p2 sys st2 i r c = Some ((0, msgs), st')" by simp
  then obtain l where "st2 = Live l" and l: "get_event (events l) i = None" "rwlock_ok sys"
      "st' = Live \<lparr>events = events l @ [?e], num_events = num_events l + 1\<rparr>"
    by (rule ems_create_p2_success)
  let ?l = "\<lparr>events = events l @ [?e], num_events = num_events l + 1\<rparr>"
  have lt: "unat r * unat c < 2 ^ 64" using a by simp
  have g: "get_event (events ?l) i = Some (length (events l))"
    using get_event_append[OF l(1), of ?e] by (simp add: new_event_def)
  have k: "events ?l ! length (events l) = ?e" by simp
  have "ems_show_p2 sys (Live ?l) i
      = Some ([], [FInt 0, FSize (rows (events ?l ! length (events l))),
                   FSize (cols (events ?l ! length (events l))),
                   FArray (data (events ?l ! length (events l)))])"
    using wf_event_new[OF lt, of i] assms a l(2) by (intro ems_show_p2_eq[OF g]) (simp_all only: k, simp_all)
  then show "ems_show_p2 sys st' i
      = Some ([], [FInt 0, FSize r, FSize c, FArray (replicate (unat r * unat c) 0)])"
    using l(3) wf_event_new(2)[OF lt, of i] by (simp add: new_event_def)
qed

lemma row_text_zeros: "row_text [0, 0, 0] = ''0 0 0'' @ [newline]"
  by (simp add: dec_digit digit_def)

theorem create_then_show_witness:
  "1 \<le> unat (2 :: size_t) * unat (3 :: size_t) \<and>
   ems_create_p1 ok_sys (Some []) 1 2 3 = Some ((0, []), Some [new_event 1 2 3]) \<and>
   ems_show_p1 (Some [new_event 1 2 3]) 1
     = Some ((0, []), ''0 0 0'' @ [newline] @ ''0 0 0'' @ [newline]) \<and>
   ems_create_p2 ok_sys (Live (registry [])) 1 2 3
     = Some ((0, []), Live (registry [new_event 1 2 3])) \<and>
   ems_show_p2 ok_sys (Live (registry [new_event 1 2 3])) 1
     = Some ([], [FInt 0, FSize 2, FSize 3, FArray [0, 0, 0, 0, 0, 0]])"
proof -
  have h: "1 \<le> unat (2 :: size_t) * unat (3 :: size_t)" by simp
  note t = create_then_show[OF h, of ok_sys "Some []" 1 "Live (registry [])"]
  have c1: "ems_create_p1 ok_sys (Some []) 1 2 3 = Some ((0, []), Some [new_event 1 2 3])"
    using ems_create_p1_new[of "[]" 1 ok_sys 2 3] by (simp add: ok_sys_def)
  have c2: "ems_create_p2 ok_sys (Live (registry [])) 1 2 3
      = Some ((0, []), Live (registry [new_event 1 2 3]))"
    by (simp add: ems_create_p2_def new_event_def append_to_list_def ok_sys_def registry_def)
  have b: "Suc (unat (2 :: size_t) * unat (3 :: size_t)) < 2 ^ 64"
    "unat (2 :: size_t) * unat (3 :: size_t) < 2 ^ 31" "mutex_ok ok_sys"
    by (simp_all add: ok_sys_def)
  have u: "unat (2 :: size_t) = Suc (Suc 0)" "unat (3 :: size_t) = Suc (Suc (Suc 0))"
    by simp_all
  have r2: "replicate (unat (2 :: size_t)) x = [x, x]" for x :: string
    unfolding u by simp
  have r3: "replicate (unat (3 :: size_t)) (0 :: u32) = [0, 0, 0]"
    unfolding u by simp
  have r6: "replicate (unat (2 :: size_t) * unat (3 :: size_t)) (0 :: u32) = [0, 0, 0, 0, 0, 0]"
    unfolding u by simp
  have s1: "ems_show_p1 (Some [new_event 1 2 3]) 1
      = Some ((0, []), ''0 0 0'' @ [newline] @ ''0 0 0'' @ [newline])"
    using t c1 b(1) unfolding r2 r3 row_text_zeros by simp
  have s2: "ems_show_p2 ok_sys (Live (registry [new_event 1 2 3])) 1
      = Some ([], [FInt 0, FSize 2, FSize 3, FArray [0, 0, 0, 0, 0, 0]])"
    using t c2 b(2,3) unfolding r6 by simp
  show ?thesis using h c1 c2 s1 s2 by simp
qed

end
